theory Spec2Isabelle
  imports Main "HOL-Library.Word"
begin

unbundle bit_operations_syntax

section \<open>Machine types\<close>

text \<open>
  \<^verbatim>\<open>uint8_t\<close>, \<^verbatim>\<open>uint32_t\<close> and \<^verbatim>\<open>uint64_t\<close> of PrimeNumberFinder.cpp. Addition,
  multiplication and shifts on these types wrap around, as in C++.
\<close>

type_synonym u8 = "8 word"
type_synonym u32 = "32 word"
type_synonym u64 = "64 word"

text \<open>
  The C++ code has no error path: a read outside an array, a null table and a loop that
  never ends are undefined or non-returning behaviour. The model makes each of them a
  value, so that a theorem saying that a function returns has content.
\<close>

datatype error = OutOfBounds | NullPointer | Diverges

text \<open>
  What the engine does to the outside world, in the order it happens: a call of the
  function callback, a call of the bound-object callback, a string written to standard
  output, a progress report to the controller.
\<close>

datatype event = Callback u64 | CallbackOOP u64 | Stdout string | DoStatus u32

section \<open>Constants\<close>

definition BYTE_SIZE :: u32 where
  "BYTE_SIZE = push_bit 8 1"

definition END :: u32 where
  "END = BYTE_SIZE"

text \<open>
  Modelled from the spec: the constants of defs.h, which is not among the sources. The spec
  fixes the numbers-per-byte constant at 30 and the number of tuplet classes at 7; the
  initialiser lists of \<^verbatim>\<open>nextBitValue_\<close> (30 entries) and \<^verbatim>\<open>bitmasks\<close> (7 rows) agree.
\<close>

definition NUMBERS_PER_BYTE :: u32 where
  "NUMBERS_PER_BYTE = 30"

definition COUNTS_SIZE :: nat where
  "COUNTS_SIZE = 7"

text \<open>
  Modelled from the spec: the flag constants of PrimeSieve.h, which is not among the
  sources. The counting flags are the ladder \<^verbatim>\<open>COUNT_PRIMES << i\<close> for the 7 classes and
  the printing flags the ladder \<^verbatim>\<open>PRINT_PRIMES << i\<close> ("flags form an ordered ladder from
  prime through septuplet, and the class index is the ladder position"), as the loops of
  the source walk them. \<^verbatim>\<open>COUNT_FLAGS\<close>, \<^verbatim>\<open>PRINT_FLAGS\<close> and \<^verbatim>\<open>GENERATE_FLAGS\<close> are the
  unions the source tests. The two callback flags and the POPCNT flag are single bits
  above both ladders; their exact positions play no role.
\<close>

definition COUNT_PRIMES :: u32 where
  "COUNT_PRIMES = push_bit 0 1"

definition COUNT_FLAGS :: u32 where
  "COUNT_FLAGS = push_bit 7 1 - 1"

definition PRINT_PRIMES :: u32 where
  "PRINT_PRIMES = push_bit 7 1"

definition PRINT_FLAGS :: u32 where
  "PRINT_FLAGS = push_bit 14 1 - push_bit 7 1"

definition CALLBACK_PRIMES :: u32 where
  "CALLBACK_PRIMES = push_bit 20 1"

definition CALLBACK_PRIMES_OOP :: u32 where
  "CALLBACK_PRIMES_OOP = push_bit 21 1"

definition GENERATE_FLAGS :: u32 where
  "GENERATE_FLAGS = PRINT_FLAGS OR CALLBACK_PRIMES OR CALLBACK_PRIMES_OOP"

definition SSE4_POPCNT :: u32 where
  "SSE4_POPCNT = push_bit 22 1"

text \<open>The tuplet chain table, lines 38 to 43: 30 entries.\<close>

definition nextBitValue :: "u32 list" where
  "nextBitValue =
    [0,
     0, 0, 0, 0, 0, 0,
     11, 0, 0, 0, 13, 0,
     17, 0, 0, 0, 19, 0,
     23, 0, 0, 0, 29, 0,
     0, 0, 0, 0, 31]"

text \<open>
  The pattern catalog, lines 71 to 78: 7 rows of 9 cells. A row shorter than 9 is filled
  with zeros by the C++ initialiser.
\<close>

definition bitmasks :: "u32 list list" where
  "bitmasks =
    [[0x01, 0x02, 0x04, 0x08, 0x10, 0x20, 0x40, 0x80, END],
     [0x06, 0x18, 0xc0, END, 0, 0, 0, 0, 0],
     [0x07, 0x0e, 0x1c, 0x38, END, 0, 0, 0, 0],
     [0x1e, END, 0, 0, 0, 0, 0, 0, 0],
     [0x1f, 0x3e, END, 0, 0, 0, 0, 0, 0],
     [0x3f, END, 0, 0, 0, 0, 0, 0, 0],
     [0xfe, END, 0, 0, 0, 0, 0, 0, 0]]"

text \<open>
  Modelled from the spec: \<^verbatim>\<open>ntz\<close> of pmath.h, which is not among the sources ("compute
  the lowest set bit of the pattern"): the number of trailing zero bits.
\<close>

definition ntz :: "u32 \<Rightarrow> nat" where
  "ntz x = length (takeWhile (\<lambda>n. \<not> bit x n) [0..<32])"

text \<open>
  Modelled from the spec: the residue-slot table \<^verbatim>\<open>bitValues_\<close> of SieveOfEratosthenes.h,
  which is not among the sources. The functions below take the table as a parameter; this
  is the table the spec's scenarios use (slot 0 is 7, slot 1 is 11, slot 2 is 13), and the
  one that the chain \<^verbatim>\<open>nextBitValue\<close> walks: 7, 11, 13, 17, 19, 23, 29, 31.
\<close>

definition bitValues_std :: "u32 list" where
  "bitValues_std = [7, 11, 13, 17, 19, 23, 29, 31]"

section \<open>State\<close>

text \<open>
  A name cannot end in an underscore here: the members \<^verbatim>\<open>flags_\<close>, \<^verbatim>\<open>counts_\<close>,
  \<^verbatim>\<open>primeSieve_\<close>, \<^verbatim>\<open>primeByteCounts_\<close>, \<^verbatim>\<open>primeBitValues_\<close>, \<^verbatim>\<open>bitValues_\<close> and
  \<^verbatim>\<open>nextBitValue_\<close> of the source lose theirs.

  The part of \<^verbatim>\<open>PrimeSieve\<close> that PrimeNumberFinder.cpp reads and writes: the four getters
  of the constructor, \<^verbatim>\<open>flags\<close>, the counters \<^verbatim>\<open>counts\<close>, and, as \<open>world\<close>, the trace of
  the calls made through it (\<^verbatim>\<open>callback_\<close>, \<^verbatim>\<open>callbackOOP_\<close>, \<^verbatim>\<open>parent_->doStatus\<close>) and
  of the writes to \<^verbatim>\<open>std::cout\<close>. PrimeSieve.h is not among the sources: the start and stop
  numbers are 64 bits wide as the constructor's \<^verbatim>\<open>std::max<uint64_t>\<close> has them, the flags 32
  bits as the masks of the source, and the counters are taken to be 64 bits wide (no
  statement below depends on their width).
\<close>

record PrimeSieve =
  getStartNumber :: u64
  getStopNumber :: u64
  getSieveSize :: u32
  getPreSieveLimit :: u32
  flags :: u32
  counts :: "u64 list"
  world :: "event list"

text \<open>
  \<^verbatim>\<open>PrimeNumberFinder\<close>: the four arguments its constructor hands to the base class
  \<^verbatim>\<open>SieveOfEratosthenes\<close>, the \<^verbatim>\<open>PrimeSieve\<close> it points to, its two tables (\<open>None\<close> is the
  null pointer) and the residue-slot table it inherits.
\<close>

record PrimeNumberFinder =
  soe_startNumber :: u64
  soe_stopNumber :: u64
  soe_sieveSize :: u32
  soe_preSieveLimit :: u32
  primeSieve :: PrimeSieve
  primeByteCounts :: "u32 list option list option"
  primeBitValues :: "u32 list list option"
  bitValues :: "u32 list"

section \<open>initLookupTables\<close>

text \<open>
  Running a fallible step over a list, in order, stopping at the first error: the shape of
  the \<^verbatim>\<open>for\<close> loops that fill a table cell by cell.
\<close>

fun mapE :: "('a \<Rightarrow> error + 'b) \<Rightarrow> 'a list \<Rightarrow> error + 'b list" where
  "mapE f [] = Inr []"
| "mapE f (x # xs) =
     (case f x of
        Inl e \<Rightarrow> Inl e
      | Inr y \<Rightarrow> (case mapE f xs of Inl e \<Rightarrow> Inl e | Inr ys \<Rightarrow> Inr (y # ys)))"

text \<open>
  Lines 89 to 93: \<^verbatim>\<open>for (b = bitmasks[i]; *b <= j; b++) if ((j & *b) == *b) bitmaskCount++\<close>.
  The first argument is what is left of the row from \<^verbatim>\<open>b\<close> on; walking off the row is an
  out-of-bounds read.
\<close>

fun count_scan :: "u32 list \<Rightarrow> u32 \<Rightarrow> u32 \<Rightarrow> error + u32" where
  "count_scan [] j bitmaskCount = Inl OutOfBounds"
| "count_scan (b # bs) j bitmaskCount =
     (if b \<le> j
      then count_scan bs j (if j AND b = b then bitmaskCount + 1 else bitmaskCount)
      else Inr bitmaskCount)"

text \<open>Lines 87 to 95: the 256 cells of the count table of class \<open>i\<close>.\<close>

definition byteCounts_row :: "nat \<Rightarrow> error + u32 list" where
  "byteCounts_row i =
     (if i < length bitmasks
      then mapE (\<lambda>j. count_scan (bitmasks ! i) (of_nat j) 0) [0..<unat BYTE_SIZE]
      else Inl OutOfBounds)"

text \<open>Lines 82 to 98: no table at all without a counting flag, and a row per enabled class.\<close>

definition init_primeByteCounts :: "u32 \<Rightarrow> error + u32 list option list option" where
  "init_primeByteCounts fl =
     (if fl AND COUNT_FLAGS \<noteq> 0
      then (case mapE (\<lambda>i. if fl AND push_bit i COUNT_PRIMES \<noteq> 0
                            then (case byteCounts_row i of
                                    Inl e \<Rightarrow> Inl e
                                  | Inr row \<Rightarrow> Inr (Some row))
                            else Inr None) [0..<COUNTS_SIZE] of
              Inl e \<Rightarrow> Inl e
            | Inr rows \<Rightarrow> Inr (Some rows))
      else Inr None)"

text \<open>
  Lines 106 and 107, and again lines 188 and 189: the walk up the printing ladder,
  \<^verbatim>\<open>for (i = PRINT_PRIMES; (i & flags) == 0; i <<= 1)\<close>. Once \<open>i\<close> is shifted out it is 0 and
  the loop never ends; \<open>None\<close> is that run.
\<close>

partial_function (option) generateType_loop :: "u32 \<Rightarrow> u32 \<Rightarrow> u32 \<Rightarrow> u32 option" where
  "generateType_loop fl i generateType =
     (if i AND fl = 0
      then generateType_loop fl (push_bit 1 i) (generateType + 1)
      else Some generateType)"

text \<open>
  Lines 110 to 115: the row of byte value \<open>i\<close>. The last argument is the cells written so
  far, \<^verbatim>\<open>primeBitValues[i][0 .. bitmaskCount - 1]\<close>; the array has 9 cells, and so has the
  table \<^verbatim>\<open>bitValues\<close> its 8. The cells after the sentinel are never written and are not
  part of the row.
\<close>

fun value_scan :: "u32 list \<Rightarrow> u32 list \<Rightarrow> u32 \<Rightarrow> u32 list \<Rightarrow> error + u32 list" where
  "value_scan bvs [] i row = Inl OutOfBounds"
| "value_scan bvs (b # bs) i row =
     (if b \<le> i
      then (if i AND b = b
            then (if length row < 9 \<and> ntz b < length bvs
                  then value_scan bvs bs i (row @ [bvs ! ntz b])
                  else Inl OutOfBounds)
            else value_scan bvs bs i row)
      else (if length row < 9 then Inr (row @ [END]) else Inl OutOfBounds))"

text \<open>Lines 102 to 117.\<close>

definition init_primeBitValues :: "u32 \<Rightarrow> u32 list \<Rightarrow> error + u32 list list option" where
  "init_primeBitValues fl bvs =
     (if fl AND GENERATE_FLAGS \<noteq> 0
      then (case (if fl AND PRINT_FLAGS \<noteq> 0
                  then generateType_loop fl PRINT_PRIMES 0
                  else Some 0) of
              None \<Rightarrow> Inl Diverges
            | Some generateType \<Rightarrow>
                (if unat generateType < length bitmasks
                 then (case mapE (\<lambda>i. value_scan bvs (bitmasks ! unat generateType)
                                         (of_nat i) []) [0..<unat BYTE_SIZE] of
                         Inl e \<Rightarrow> Inl e
                       | Inr rows \<Rightarrow> Inr (Some rows))
                 else Inl OutOfBounds))
      else Inr None)"

definition initLookupTables ::
  "u32 \<Rightarrow> u32 list \<Rightarrow> error + (u32 list option list option \<times> u32 list list option)" where
  "initLookupTables fl bvs =
     (case init_primeByteCounts fl of
        Inl e \<Rightarrow> Inl e
      | Inr byteCounts \<Rightarrow>
          (case init_primeBitValues fl bvs of
             Inl e \<Rightarrow> Inl e
           | Inr bitVals \<Rightarrow> Inr (byteCounts, bitVals)))"

section \<open>The constructor\<close>

text \<open>
  Lines 45 to 55. \<^verbatim>\<open>isPOPCNTSupported()\<close> of cpuid.h asks the processor; its answer is an
  argument here.
\<close>

definition new_PrimeNumberFinder :: "PrimeSieve \<Rightarrow> bool \<Rightarrow> u32 list \<Rightarrow> error + PrimeNumberFinder" where
  "new_PrimeNumberFinder ps isPOPCNTSupported bvs =
     (let ps' = (if isPOPCNTSupported then ps\<lparr>flags := flags ps OR SSE4_POPCNT\<rparr> else ps)
      in case initLookupTables (flags ps') bvs of
           Inl e \<Rightarrow> Inl e
         | Inr (byteCounts, bitVals) \<Rightarrow>
             Inr \<lparr>soe_startNumber = max (getStartNumber ps) 7,
                  soe_stopNumber = getStopNumber ps,
                  soe_sieveSize = getSieveSize ps * 1024,
                  soe_preSieveLimit = getPreSieveLimit ps,
                  primeSieve = ps',
                  primeByteCounts = byteCounts,
                  primeBitValues = bitVals,
                  bitValues = bvs\<rparr>)"

section \<open>count\<close>

text \<open>The number of set bits of a machine word.\<close>

definition popcount :: "'a::len word \<Rightarrow> nat" where
  "popcount w = length (filter (bit w) [0..<LENGTH('a)])"

text \<open>
  Modelled from the spec: the macro \<^verbatim>\<open>POPCNT64(addr, i)\<close> of defs.h, which is not among the
  sources ("accumulating the population count of each chunk directly"): the 8 bytes
  \<^verbatim>\<open>addr[i .. i + 7]\<close> are read as one 64-bit word and its set bits are counted.
\<close>

definition load_u64 :: "u8 list \<Rightarrow> u64" where
  "load_u64 bytes = foldr (\<lambda>b w. ucast b OR push_bit 8 w) bytes 0"

definition POPCNT64 :: "u8 list \<Rightarrow> nat \<Rightarrow> u32" where
  "POPCNT64 addr i = of_nat (popcount (load_u64 (take 8 (drop i addr))))"

text \<open>
  Lines 132 and 133: \<^verbatim>\<open>for (; i + 8 < sieveSize; i += 8) primeCount += POPCNT64(sieve, i)\<close>,
  with \<open>i + 8\<close> computed in 32 bits. The segment is the \<open>sieveSize\<close> bytes at \<open>sieve\<close>: a chunk
  that does not lie within them is an out-of-bounds read. The loop returns the index it
  stopped at together with the count.
\<close>

function popcnt_loop :: "u8 list \<Rightarrow> u32 \<Rightarrow> u32 \<Rightarrow> u32 \<Rightarrow> error + (u32 \<times> u32)" where
  "popcnt_loop sieve sieveSize i primeCount =
     (if i + 8 < sieveSize
      then (if unat i + 8 \<le> unat sieveSize \<and> unat i + 8 \<le> length sieve
            then popcnt_loop sieve sieveSize (i + 8) (primeCount + POPCNT64 sieve (unat i))
            else Inl OutOfBounds)
      else Inr (i, primeCount))"
  by pat_completeness auto
termination
proof (relation "measure (\<lambda>(sieve, sieveSize, i, primeCount). unat sieveSize - unat i)", goal_cases)
  case 1
  show ?case by simp
next
  case (2 sieve sieveSize i primeCount)
  have "unat sieveSize < 2 ^ 32"
    using unsigned_less [of sieveSize, where ?'a = nat] by simp
  with 2 have "unat (i + 8) = unat i + 8"
    by (simp add: unat_word_ariths)
  with 2 show ?case by auto
qed

text \<open>
  \<^verbatim>\<open>primeByteCounts_[i][byte]\<close>: both levels of the table may be null, and both indices are
  checked.
\<close>

definition byteCount_at :: "u32 list option list option \<Rightarrow> nat \<Rightarrow> u8 \<Rightarrow> error + u32" where
  "byteCount_at byteCounts i byte =
     (case byteCounts of
        None \<Rightarrow> Inl NullPointer
      | Some rows \<Rightarrow>
          (if i < length rows
           then (case rows ! i of
                   None \<Rightarrow> Inl NullPointer
                 | Some row \<Rightarrow>
                     (if unat byte < length row then Inr (row ! unat byte) else Inl OutOfBounds))
           else Inl OutOfBounds))"

text \<open>
  Lines 136 and 137 for class 0, lines 144 to 146 for class \<open>c > 0\<close>:
  \<^verbatim>\<open>for (; i < sieveSize; i++) cnt += primeByteCounts_[c][sieve[i]]\<close>.
\<close>

function lookup_loop ::
  "u32 list option list option \<Rightarrow> nat \<Rightarrow> u8 list \<Rightarrow> u32 \<Rightarrow> u32 \<Rightarrow> u32 \<Rightarrow> error + u32" where
  "lookup_loop byteCounts c sieve sieveSize i cnt =
     (if i < sieveSize
      then (if unat i < length sieve
            then (case byteCount_at byteCounts c (sieve ! unat i) of
                    Inl e \<Rightarrow> Inl e
                  | Inr n \<Rightarrow> lookup_loop byteCounts c sieve sieveSize (i + 1) (cnt + n))
            else Inl OutOfBounds)
      else Inr cnt)"
  by pat_completeness auto
termination
proof (relation "measure (\<lambda>(byteCounts, c, sieve, sieveSize, i, cnt). unat sieveSize - unat i)",
    goal_cases)
  case 1
  show ?case by simp
next
  case (2 byteCounts c sieve sieveSize i cnt n)
  have "unat sieveSize < 2 ^ 32"
    using unsigned_less [of sieveSize, where ?'a = nat] by simp
  with 2 have "unat (i + 1) = unat i + 1"
    by (simp add: unat_word_ariths word_less_nat_alt)
  with 2 show ?case by (auto simp: word_less_nat_alt)
qed

text \<open>\<^verbatim>\<open>primeSieve_->counts_[i] += n\<close>, the 32-bit count widened to the 64-bit counter.\<close>

definition add_count :: "u64 list \<Rightarrow> nat \<Rightarrow> u32 \<Rightarrow> error + u64 list" where
  "add_count cs i n =
     (if i < length cs then Inr (cs[i := cs ! i + ucast n]) else Inl OutOfBounds)"

text \<open>
  Lines 127 to 137: the plain-prime count of one segment. The first argument says whether
  the macro \<^verbatim>\<open>POPCNT64\<close> is defined in the build (line 129).
\<close>

definition count_primes ::
  "bool \<Rightarrow> u32 \<Rightarrow> u32 list option list option \<Rightarrow> u8 list \<Rightarrow> u32 \<Rightarrow> error + u32" where
  "count_primes POPCNT64_defined fl byteCounts sieve sieveSize =
     (case (if POPCNT64_defined \<and> fl AND SSE4_POPCNT \<noteq> 0
            then popcnt_loop sieve sieveSize 0 0
            else Inr (0, 0)) of
        Inl e \<Rightarrow> Inl e
      | Inr (i, primeCount) \<Rightarrow> lookup_loop byteCounts 0 sieve sieveSize i primeCount)"

text \<open>Lines 141 to 149; the list is the range of the class index \<open>i\<close> still to do.\<close>

fun count_ktuplets ::
  "u32 \<Rightarrow> u32 list option list option \<Rightarrow> u8 list \<Rightarrow> u32 \<Rightarrow> nat list \<Rightarrow> u64 list
     \<Rightarrow> error + u64 list" where
  "count_ktuplets fl byteCounts sieve sieveSize [] cs = Inr cs"
| "count_ktuplets fl byteCounts sieve sieveSize (i # is) cs =
     (if fl AND push_bit i COUNT_PRIMES \<noteq> 0
      then (case lookup_loop byteCounts i sieve sieveSize 0 0 of
              Inl e \<Rightarrow> Inl e
            | Inr kTupletCount \<Rightarrow>
                (case add_count cs i kTupletCount of
                   Inl e \<Rightarrow> Inl e
                 | Inr cs' \<Rightarrow> count_ktuplets fl byteCounts sieve sieveSize is cs'))
      else count_ktuplets fl byteCounts sieve sieveSize is cs)"

text \<open>Lines 124 to 150.\<close>

definition count :: "bool \<Rightarrow> PrimeNumberFinder \<Rightarrow> u8 list \<Rightarrow> u32 \<Rightarrow> error + PrimeNumberFinder" where
  "count POPCNT64_defined f sieve sieveSize =
     (let ps = primeSieve f
      in case (if flags ps AND COUNT_PRIMES \<noteq> 0
               then (case count_primes POPCNT64_defined (flags ps) (primeByteCounts f)
                            sieve sieveSize of
                       Inl e \<Rightarrow> Inl e
                     | Inr primeCount \<Rightarrow> add_count (counts ps) 0 primeCount)
               else Inr (counts ps)) of
           Inl e \<Rightarrow> Inl e
         | Inr cs \<Rightarrow>
             (case count_ktuplets (flags ps) (primeByteCounts f) sieve sieveSize
                     [1..<COUNTS_SIZE] cs of
                Inl e \<Rightarrow> Inl e
              | Inr cs' \<Rightarrow> Inr (f\<lparr>primeSieve := ps\<lparr>counts := cs'\<rparr>\<rparr>)))"

section \<open>generate\<close>

text \<open>What \<^verbatim>\<open>operator<<\<close> writes for a \<^verbatim>\<open>uint64_t\<close>: its decimal digits.\<close>

definition digit_char :: "nat \<Rightarrow> char" where
  "digit_char d = ''0123456789'' ! d"

fun decimal :: "nat \<Rightarrow> string" where
  "decimal n =
     (if n < 10 then [digit_char n] else decimal (n div 10) @ [digit_char (n mod 10)])"

declare decimal.simps [simp del]

text \<open>
  Lines 188 to 192: the loop that writes all members of a tuplet but the last,
  \<^verbatim>\<open>for (j = PRINT_PRIMES; (j & flags) == 0; j <<= 1) { ktuplet << byteValue + v << ", "; v = nextBitValue_[v]; }\<close>.
  The last argument is the text in the stream so far. \<open>None\<close> is the run that never ends.
\<close>

partial_function (option) ktuplet_loop ::
  "u32 \<Rightarrow> u64 \<Rightarrow> u32 \<Rightarrow> u32 \<Rightarrow> string \<Rightarrow> (error + string \<times> u32) option" where
  "ktuplet_loop fl byteValue j v ktuplet =
     (if j AND fl = 0
      then (if unat v < length nextBitValue
            then ktuplet_loop fl byteValue (push_bit 1 j) (nextBitValue ! unat v)
                   (ktuplet @ decimal (unat (byteValue + ucast v)) @ '', '')
            else Some (Inl OutOfBounds))
      else Some (Inr (ktuplet, v)))"

text \<open>The four loop bodies: lines 163 and 164, 170 and 171, 177 to 179, 185 to 194.\<close>

definition call_callback :: "u64 \<Rightarrow> u32 \<Rightarrow> error + event list" where
  "call_callback byteValue bitValue = Inr [Callback (byteValue + ucast bitValue)]"

definition call_callbackOOP :: "u64 \<Rightarrow> u32 \<Rightarrow> error + event list" where
  "call_callbackOOP byteValue bitValue = Inr [CallbackOOP (byteValue + ucast bitValue)]"

definition print_prime :: "u64 \<Rightarrow> u32 \<Rightarrow> error + event list" where
  "print_prime byteValue bitValue =
     Inr [Stdout (decimal (unat (byteValue + ucast bitValue)) @ [CHR 0x0A])]"

definition print_ktuplet :: "u32 \<Rightarrow> u64 \<Rightarrow> u32 \<Rightarrow> error + event list" where
  "print_ktuplet fl byteValue bitValue =
     (case ktuplet_loop fl byteValue PRINT_PRIMES bitValue ''('' of
        None \<Rightarrow> Inl Diverges
      | Some (Inl e) \<Rightarrow> Inl e
      | Some (Inr (ktuplet, v)) \<Rightarrow>
          Inr [Stdout (ktuplet @ decimal (unat (byteValue + ucast v)) @ '')'' @ [CHR 0x0A])])"

text \<open>
  The inner loop, the same in all four branches:
  \<^verbatim>\<open>for (bitValue = primeBitValues_[sieve[i]]; *bitValue != END; bitValue++) body\<close>.
  A row that ends before a sentinel is read past its written cells.
\<close>

fun row_loop ::
  "(u64 \<Rightarrow> u32 \<Rightarrow> error + event list) \<Rightarrow> u64 \<Rightarrow> u32 list \<Rightarrow> error + event list" where
  "row_loop body byteValue [] = Inl OutOfBounds"
| "row_loop body byteValue (bitValue # rest) =
     (if bitValue \<noteq> END
      then (case body byteValue bitValue of
              Inl e \<Rightarrow> Inl e
            | Inr evs \<Rightarrow>
                (case row_loop body byteValue rest of
                   Inl e \<Rightarrow> Inl e
                 | Inr evs' \<Rightarrow> Inr (evs @ evs')))
      else Inr [])"

definition bitValues_row :: "u32 list list option \<Rightarrow> u8 \<Rightarrow> error + u32 list" where
  "bitValues_row bitVals byte =
     (case bitVals of
        None \<Rightarrow> Inl NullPointer
      | Some rows \<Rightarrow>
          (if unat byte < length rows then Inr (rows ! unat byte) else Inl OutOfBounds))"

text \<open>
  The outer loop, the same in all four branches:
  \<^verbatim>\<open>for (i = 0; i < sieveSize; i++, byteValue += NUMBERS_PER_BYTE)\<close>.
\<close>

function generate_loop ::
  "(u64 \<Rightarrow> u32 \<Rightarrow> error + event list) \<Rightarrow> u32 list list option \<Rightarrow> u8 list \<Rightarrow> u32 \<Rightarrow> u32 \<Rightarrow> u64
     \<Rightarrow> error + event list" where
  "generate_loop body bitVals sieve sieveSize i byteValue =
     (if i < sieveSize
      then (if unat i < length sieve
            then (case bitValues_row bitVals (sieve ! unat i) of
                    Inl e \<Rightarrow> Inl e
                  | Inr row \<Rightarrow>
                      (case row_loop body byteValue row of
                         Inl e \<Rightarrow> Inl e
                       | Inr evs \<Rightarrow>
                           (case generate_loop body bitVals sieve sieveSize (i + 1)
                                   (byteValue + ucast NUMBERS_PER_BYTE) of
                              Inl e \<Rightarrow> Inl e
                            | Inr evs' \<Rightarrow> Inr (evs @ evs'))))
            else Inl OutOfBounds)
      else Inr [])"
  by pat_completeness auto
termination
proof (relation
    "measure (\<lambda>(body, bitVals, sieve, sieveSize, i, byteValue). unat sieveSize - unat i)",
    goal_cases)
  case 1
  show ?case by simp
next
  case (2 body bitVals sieve sieveSize i byteValue row evs)
  have "unat sieveSize < 2 ^ 32"
    using unsigned_less [of sieveSize, where ?'a = nat] by simp
  with 2 have "unat (i + 1) = unat i + 1"
    by (simp add: unat_word_ariths word_less_nat_alt)
  with 2 show ?case by (auto simp: word_less_nat_alt)
qed

text \<open>
  Lines 156 to 198. \<^verbatim>\<open>getSegmentLow()\<close> belongs to the base class; its value is an argument.
  The effects are appended to the trace.
\<close>

definition generate :: "PrimeNumberFinder \<Rightarrow> u64 \<Rightarrow> u8 list \<Rightarrow> u32 \<Rightarrow> error + PrimeNumberFinder" where
  "generate f getSegmentLow sieve sieveSize =
     (let ps = primeSieve f;
          body = (if flags ps AND CALLBACK_PRIMES \<noteq> 0 then call_callback
                  else if flags ps AND CALLBACK_PRIMES_OOP \<noteq> 0 then call_callbackOOP
                  else if flags ps AND PRINT_PRIMES \<noteq> 0 then print_prime
                  else print_ktuplet (flags ps))
      in case generate_loop body (primeBitValues f) sieve sieveSize 0 getSegmentLow of
           Inl e \<Rightarrow> Inl e
         | Inr evs \<Rightarrow> Inr (f\<lparr>primeSieve := ps\<lparr>world := world ps @ evs\<rparr>\<rparr>))"

section \<open>analyseSieve\<close>



section \<open>The tables as the specification describes them\<close>

text \<open>
  The ascending pattern list of class \<open>i\<close>: the cells of its catalog row before the sentinel.
\<close>

definition patterns :: "nat \<Rightarrow> u32 list" where
  "patterns i = takeWhile (\<lambda>b. b \<noteq> END) (bitmasks ! i)"

text \<open>
  Following the spec's words, not the source: the count obtained by scanning the entire
  pattern list, one for each pattern fully contained in \<open>j\<close> (bitwise AND equals the
  pattern). There is no early exit here.
\<close>

definition full_scan_count :: "u32 list \<Rightarrow> u32 \<Rightarrow> u32" where
  "full_scan_count ps j = of_nat (length (filter (\<lambda>b. j AND b = b) ps))"

text \<open>
  What the specification says \<^verbatim>\<open>count\<close> adds to the counter of class \<open>i\<close> for a segment:
  the sum of the table entries of its bytes, in the 32-bit arithmetic of \<^verbatim>\<open>kTupletCount\<close>.
\<close>

definition class_total :: "nat \<Rightarrow> u8 list \<Rightarrow> u32" where
  "class_total i sieve = sum_list (map (\<lambda>byte. full_scan_count (patterns i) (ucast byte)) sieve)"

text \<open>The counters after class \<open>i\<close> has been counted, and after all seven classes have.\<close>

definition count_step :: "u32 \<Rightarrow> u8 list \<Rightarrow> u64 list \<Rightarrow> nat \<Rightarrow> u64 list" where
  "count_step fl sieve cs i =
     (if fl AND push_bit i COUNT_PRIMES \<noteq> 0
      then cs[i := cs ! i + ucast (class_total i sieve)]
      else cs)"

definition counted :: "u32 \<Rightarrow> u8 list \<Rightarrow> u64 list \<Rightarrow> u64 list" where
  "counted fl sieve cs = foldl (count_step fl sieve) cs [0..<COUNTS_SIZE]"

text \<open>
  Following the spec's words: the single active generation class. It is the ladder position
  of the printing flag that is set (of the lowest one, should several be set), and the
  Prime class when no printing flag is set, as in the two callback modes.
\<close>

definition generateType_of :: "u32 \<Rightarrow> nat" where
  "generateType_of fl =
     (if fl AND PRINT_FLAGS \<noteq> 0
      then length (takeWhile (\<lambda>k. \<not> bit fl (7 + k)) [0..<COUNTS_SIZE])
      else 0)"

text \<open>
  Following the spec's words: the row of byte value \<open>j\<close> before its sentinel. For each pattern
  of the class contained in \<open>j\<close>, in the order of the pattern list, the residue offset of the
  pattern's lowest set bit.
\<close>

definition offsets :: "u32 list \<Rightarrow> u32 list \<Rightarrow> u32 \<Rightarrow> u32 list" where
  "offsets bvs ps j = map (\<lambda>b. bvs ! ntz b) (filter (\<lambda>b. j AND b = b) ps)"

text \<open>The entries of a table row that the walk of the row reaches: those before the sentinel.\<close>

definition row_entries :: "u32 list \<Rightarrow> u32 list" where
  "row_entries row = takeWhile (\<lambda>bitValue. bitValue \<noteq> END) row"

text \<open>
  Following the spec's words: the running absolute value starts at the segment's low value
  and is advanced by 30 after each byte; each entry of the row of the current byte is paired
  with the running value, in row order.
\<close>

fun reconstructed :: "u32 list list \<Rightarrow> u64 \<Rightarrow> u8 list \<Rightarrow> (u64 \<times> u32) list" where
  "reconstructed rows runningValue [] = []"
| "reconstructed rows runningValue (byte # segment) =
     map (Pair runningValue) (row_entries (rows ! unat byte))
       @ reconstructed rows (runningValue + 30) segment"

text \<open>Each entry yields the absolute value \<open>runningValue + entry\<close>, in 64 bits.\<close>

definition reconstructed_values :: "u32 list list \<Rightarrow> u64 \<Rightarrow> u8 list \<Rightarrow> u64 list" where
  "reconstructed_values rows segmentLow segment =
     map (\<lambda>(runningValue, entry). runningValue + ucast entry)
       (reconstructed rows segmentLow segment)"

text \<open>One loop body run on each pair in turn, stopping at the first fault.\<close>

fun emit_all ::
  "(u64 \<Rightarrow> u32 \<Rightarrow> error + event list) \<Rightarrow> (u64 \<times> u32) list \<Rightarrow> error + event list" where
  "emit_all body [] = Inr []"
| "emit_all body ((runningValue, entry) # rest) =
     (case body runningValue entry of
        Inl e \<Rightarrow> Inl e
      | Inr evs \<Rightarrow>
          (case emit_all body rest of Inl e \<Rightarrow> Inl e | Inr evs' \<Rightarrow> Inr (evs @ evs')))"

text \<open>
  Following the spec's words: the members of a tuplet from its first member, by \<open>k\<close>
  successive lookups in the chain table; \<open>None\<close> when a lookup leaves the table.
\<close>

fun chain :: "nat \<Rightarrow> u32 \<Rightarrow> u32 list option" where
  "chain 0 v = Some [v]"
| "chain (Suc k) v =
     (if unat v < length nextBitValue
      then map_option ((#) v) (chain k (nextBitValue ! unat v))
      else None)"

text \<open>The line \<^verbatim>\<open>(v1, v2, ..., vN)\<close> followed by a line break.\<close>

fun comma_separated :: "string list \<Rightarrow> string" where
  "comma_separated [] = []"
| "comma_separated [x] = x"
| "comma_separated (x # y # zs) = x @ '', '' @ comma_separated (y # zs)"

definition tuplet_line :: "u64 \<Rightarrow> u32 list \<Rightarrow> string" where
  "tuplet_line runningValue members =
     ''('' @ comma_separated (map (\<lambda>v. decimal (unat (runningValue + ucast v))) members)
       @ '')'' @ [CHR 0x0A]"

text \<open>The loop body that the branch taken by \<^verbatim>\<open>generate\<close> runs, and the trace extended.\<close>

definition generate_body :: "u32 \<Rightarrow> u64 \<Rightarrow> u32 \<Rightarrow> error + event list" where
  "generate_body fl =
     (if fl AND CALLBACK_PRIMES \<noteq> 0 then call_callback
      else if fl AND CALLBACK_PRIMES_OOP \<noteq> 0 then call_callbackOOP
      else if fl AND PRINT_PRIMES \<noteq> 0 then print_prime
      else print_ktuplet fl)"

definition with_events :: "PrimeNumberFinder \<Rightarrow> event list \<Rightarrow> PrimeNumberFinder" where
  "with_events f evs = f\<lparr>primeSieve := (primeSieve f)\<lparr>world := world (primeSieve f) @ evs\<rparr>\<rparr>"

text \<open>
  Following the claim's words: the four emission modes, and the one selected by the fixed
  precedence over the flags: function callback first, then bound-object callback, then
  plain-prime text, with tuplet text as the fallback.
\<close>

datatype emission_mode = FunctionCallback | ObjectCallback | PrimeText | TupletText

definition emission_mode_of :: "u32 \<Rightarrow> emission_mode" where
  "emission_mode_of fl =
     (if fl AND CALLBACK_PRIMES \<noteq> 0 then FunctionCallback
      else if fl AND CALLBACK_PRIMES_OOP \<noteq> 0 then ObjectCallback
      else if fl AND PRINT_PRIMES \<noteq> 0 then PrimeText
      else TupletText)"

text \<open>
  The effects of a mode: calls of the function callback, calls of the bound-object callback,
  lines that start with a decimal digit, lines that start with an opening parenthesis. No
  effect belongs to two modes, and a progress report belongs to none.
\<close>

definition is_digit :: "char \<Rightarrow> bool" where
  "is_digit c = (c \<in> set ''0123456789'')"

fun event_of_mode :: "emission_mode \<Rightarrow> event \<Rightarrow> bool" where
  "event_of_mode FunctionCallback (Callback v) = True"
| "event_of_mode ObjectCallback (CallbackOOP v) = True"
| "event_of_mode PrimeText (Stdout s) = (s \<noteq> [] \<and> is_digit (hd s))"
| "event_of_mode TupletText (Stdout s) = (s \<noteq> [] \<and> hd s = CHR ''('')"
| "event_of_mode m ev = False"

text \<open>
  A \<^verbatim>\<open>PrimeSieve\<close> as a caller sets it up before sieving: the given flags, the seven
  counters at zero, nothing done to the outside world yet.
\<close>

definition example_PrimeSieve :: "u32 \<Rightarrow> PrimeSieve" where
  "example_PrimeSieve fl =
     \<lparr>getStartNumber = 0, getStopNumber = 1000, getSieveSize = 1, getPreSieveLimit = 13,
      flags = fl, counts = [0, 0, 0, 0, 0, 0, 0], world = []\<rparr>"

declare popcnt_loop.simps [simp del] lookup_loop.simps [simp del] generate_loop.simps [simp del]

section \<open>The count tables\<close>

lemma mapE_Inr: "(\<And>x. x \<in> set xs \<Longrightarrow> f x = Inr (g x)) \<Longrightarrow> mapE f xs = Inr (map g xs)"
  by (induction xs) simp_all

lemma not_contained_above: "(j::u32) < b \<Longrightarrow> j AND b \<noteq> b"
  by (metis word_and_le2 leD)

lemma count_scan_sorted:
  "sorted ps \<Longrightarrow> j < END \<Longrightarrow>
   count_scan (ps @ END # pad) j c = Inr (c + full_scan_count ps j)"
proof (induction ps arbitrary: c)
  case Nil
  then have "\<not> END \<le> j" by simp
  then show ?case by (simp add: full_scan_count_def)
next
  case (Cons p ps)
  show ?case
  proof (cases "p \<le> j")
    case True
    with Cons show ?thesis by (simp add: full_scan_count_def)
  next
    case False
    with Cons.prems have "\<forall>q \<in> set (p # ps). j < q" by fastforce
    then have "filter (\<lambda>b. j AND b = b) (p # ps) = []"
      by (simp add: not_contained_above filter_empty_conv)
    with False show ?thesis by (simp add: full_scan_count_def)
  qed
qed

lemma less_7_cases: "i < (7::nat) \<Longrightarrow> i = 0 \<or> i = 1 \<or> i = 2 \<or> i = 3 \<or> i = 4 \<or> i = 5 \<or> i = 6"
  by arith

lemma bitmasks_rows:
  "i < COUNTS_SIZE \<Longrightarrow> \<exists>pad. bitmasks ! i = patterns i @ END # pad"
  unfolding COUNTS_SIZE_def by (drule less_7_cases) (auto simp: patterns_def bitmasks_def END_def BYTE_SIZE_def)

lemma patterns_sorted: "i < COUNTS_SIZE \<Longrightarrow> sorted (patterns i)"
  unfolding COUNTS_SIZE_def by (drule less_7_cases) (auto simp: patterns_def bitmasks_def END_def BYTE_SIZE_def)

lemma and_single_bit: "k < 32 \<Longrightarrow> ((j::u32) AND 2 ^ k = 2 ^ k) = bit j k"
proof
  assume k: "k < 32" and e: "j AND 2 ^ k = 2 ^ k"
  have "bit (2 ^ k :: u32) k" using k by (simp add: bit_simps)
  with e have "bit (j AND 2 ^ k) k" by simp
  then show "bit j k" by (simp add: bit_and_iff)
next
  assume k: "k < 32" and b: "bit j k"
  show "j AND 2 ^ k = 2 ^ k"
    by (rule bit_eqI) (use b in \<open>auto simp: bit_simps\<close>)
qed

lemma popcount_card: "popcount w = card {n. bit w n}"
proof -
  have "{n. bit w n} \<inter> set [0..<LENGTH('a)] = {n. bit w n}"
    by (auto dest: bit_imp_le_length)
  then show ?thesis
    by (simp add: popcount_def distinct_length_filter)
qed

lemma length_bitmasks: "length bitmasks = COUNTS_SIZE"
  by (simp add: bitmasks_def COUNTS_SIZE_def)

lemma unat_BYTE_SIZE: "unat BYTE_SIZE = 256"
  by (simp add: BYTE_SIZE_def)

lemma of_nat_less_END: "j < 256 \<Longrightarrow> (of_nat j :: u32) < END"
  by (simp add: END_def BYTE_SIZE_def word_less_nat_alt unat_of_nat)

lemma ucast_less_END: "(ucast (byte::u8) :: u32) < END"
proof -
  have "unat byte < 2 ^ 8"
    using unsigned_less [of byte, where ?'a = nat] by simp
  then have "unat (ucast byte :: u32) = unat byte"
    by (simp add: unsigned_ucast_eq take_bit_nat_eq_self)
  with \<open>unat byte < 2 ^ 8\<close> show ?thesis
    by (simp add: END_def BYTE_SIZE_def word_less_nat_alt)
qed

lemma count_scan_row:
  assumes "i < COUNTS_SIZE" and "j < END"
  shows "count_scan (bitmasks ! i) j 0 = Inr (full_scan_count (patterns i) j)"
proof -
  from assms(1) obtain pad where "bitmasks ! i = patterns i @ END # pad"
    using bitmasks_rows by blast
  with assms show ?thesis
    using count_scan_sorted [OF patterns_sorted, of i j pad 0] by simp
qed

lemma byteCounts_row_eq:
  assumes "i < COUNTS_SIZE"
  shows "byteCounts_row i = Inr (map (\<lambda>j. full_scan_count (patterns i) (of_nat j)) [0..<256])"
proof -
  have "mapE (\<lambda>j. count_scan (bitmasks ! i) (of_nat j) 0) [0..<256]
      = Inr (map (\<lambda>j. full_scan_count (patterns i) (of_nat j)) [0..<256])"
    by (rule mapE_Inr) (simp add: count_scan_row [OF assms] of_nat_less_END)
  with assms show ?thesis
    by (simp add: byteCounts_row_def length_bitmasks unat_BYTE_SIZE)
qed

lemma init_primeByteCounts_eq:
  "init_primeByteCounts fl =
     Inr (if fl AND COUNT_FLAGS \<noteq> 0
          then Some (map (\<lambda>i. if fl AND push_bit i COUNT_PRIMES \<noteq> 0
                               then Some (map (\<lambda>j. full_scan_count (patterns i) (of_nat j))
                                            [0..<256])
                               else None) [0..<COUNTS_SIZE])
          else None)"
proof -
  have "mapE (\<lambda>i. if fl AND push_bit i COUNT_PRIMES \<noteq> 0
                   then (case byteCounts_row i of Inl e \<Rightarrow> Inl e | Inr row \<Rightarrow> Inr (Some row))
                   else Inr None) [0..<COUNTS_SIZE]
      = Inr (map (\<lambda>i. if fl AND push_bit i COUNT_PRIMES \<noteq> 0
                       then Some (map (\<lambda>j. full_scan_count (patterns i) (of_nat j)) [0..<256])
                       else None) [0..<COUNTS_SIZE])"
    by (rule mapE_Inr) (simp add: byteCounts_row_eq)
  then show ?thesis
    by (simp add: init_primeByteCounts_def)
qed

lemma count_flag_bit: "i < COUNTS_SIZE \<Longrightarrow> (fl AND push_bit i COUNT_PRIMES \<noteq> 0) = bit fl i"
  by (simp add: COUNT_PRIMES_def COUNTS_SIZE_def bit_iff_and_push_bit_not_eq_0)

lemma COUNT_FLAGS_iff: "(fl AND COUNT_FLAGS \<noteq> 0) = (\<exists>i<COUNTS_SIZE. bit fl i)"
proof -
  have m: "COUNT_FLAGS = mask 7"
    by (simp add: COUNT_FLAGS_def mask_eq_exp_minus_1)
  have "(fl AND mask 7 = 0) = (\<forall>i<7. \<not> bit fl i)"
  proof
    assume z: "fl AND mask 7 = 0"
    show "\<forall>i<7. \<not> bit fl i"
    proof (intro allI impI)
      fix i :: nat
      assume "i < 7"
      from z have "\<not> bit (fl AND mask 7) i" by simp
      with \<open>i < 7\<close> show "\<not> bit fl i" by (simp add: bit_simps)
    qed
  next
    assume "\<forall>i<7. \<not> bit fl i"
    then show "fl AND mask 7 = 0"
      by (intro bit_eqI) (auto simp: bit_simps)
  qed
  with m show ?thesis
    by (simp add: COUNTS_SIZE_def)
qed

lemma byteCount_at_init:
  assumes "i < COUNTS_SIZE" and "fl AND push_bit i COUNT_PRIMES \<noteq> 0"
    and "init_primeByteCounts fl = Inr byteCounts"
  shows "byteCount_at byteCounts i byte = Inr (full_scan_count (patterns i) (ucast byte))"
proof -
  have "fl AND COUNT_FLAGS \<noteq> 0"
    using assms(1,2) by (auto simp: COUNT_FLAGS_iff count_flag_bit)
  moreover have "unat byte < 256"
    using unsigned_less [of byte, where ?'a = nat] by simp
  moreover have "(of_nat (unat byte) :: u32) = ucast byte"
    by simp
  ultimately show ?thesis
    using assms by (auto simp: init_primeByteCounts_eq byteCount_at_def)
qed

lemma patterns_0: "patterns 0 = map (\<lambda>k. 2 ^ k) [0..<8]"
  by (simp add: patterns_def bitmasks_def END_def BYTE_SIZE_def upt_rec)

lemma full_scan_count_prime: "full_scan_count (patterns 0) (ucast (byte::u8)) = of_nat (popcount byte)"
proof -
  have "filter ((\<lambda>b. (ucast byte :: u32) AND b = b) \<circ> (\<lambda>k. 2 ^ k)) [0..<8]
      = filter (bit byte) [0..<8]"
    by (rule filter_cong) (auto simp: and_single_bit bit_simps)
  then show ?thesis
    by (simp add: full_scan_count_def patterns_0 filter_map popcount_def del: upt_rec_numeral)
qed

text \<open>
  Claim C1. When prime counting is enabled, the count table is built, and for every byte
  value its entry for the Prime class (row 0) is the number of set bits of the byte.
\<close>

theorem prime_count_table_is_popcount:
  assumes "fl AND COUNT_PRIMES \<noteq> 0"
  shows "\<exists>byteCounts. init_primeByteCounts fl = Inr byteCounts \<and>
           (\<forall>byte. byteCount_at byteCounts 0 byte = Inr (of_nat (card {n. bit byte n})))"
proof -
  obtain byteCounts where bc: "init_primeByteCounts fl = Inr byteCounts"
    by (simp add: init_primeByteCounts_eq)
  have "fl AND push_bit 0 COUNT_PRIMES \<noteq> 0"
    using assms by simp
  then have "byteCount_at byteCounts 0 byte = Inr (of_nat (card {n. bit byte n}))" for byte
    using byteCount_at_init [OF _ _ bc, of 0 byte]
    by (simp add: COUNTS_SIZE_def full_scan_count_prime popcount_card)
  with bc show ?thesis by blast
qed

theorem prime_count_table_is_popcount_witness:
  "(1::u32) AND COUNT_PRIMES \<noteq> 0 \<and>
   (\<exists>byteCounts. init_primeByteCounts 1 = Inr byteCounts \<and>
      byteCount_at byteCounts 0 0xFF = Inr 8 \<and> byteCount_at byteCounts 0 0 = Inr 0 \<and>
      byteCount_at byteCounts 0 0x29 = Inr 3)"
proof -
  have h: "(1::u32) AND COUNT_PRIMES \<noteq> 0"
    by (simp add: COUNT_PRIMES_def)
  have c: "card {n. bit (0xFF::u8) n} = 8" "card {n. bit (0::u8) n} = 0"
    "card {n. bit (0x29::u8) n} = 3"
    unfolding popcount_card [symmetric] by (simp_all add: popcount_def upt_rec)
  from prime_count_table_is_popcount [OF h] obtain byteCounts
    where "init_primeByteCounts 1 = Inr byteCounts"
      and "\<forall>byte. byteCount_at byteCounts 0 byte = Inr (of_nat (card {n. bit byte n}))"
    by blast
  with c h show ?thesis by auto
qed

lemma filter_takeWhile_sorted:
  "sorted ps \<Longrightarrow>
   filter (\<lambda>b. j AND b = b) (takeWhile (\<lambda>b. b \<le> j) ps) = filter (\<lambda>b. (j::u32) AND b = b) ps"
proof (induction ps)
  case Nil
  then show ?case by simp
next
  case (Cons p ps)
  show ?case
  proof (cases "p \<le> j")
    case True
    with Cons show ?thesis by simp
  next
    case False
    with Cons.prems have "\<forall>q \<in> set (p # ps). j < q" by fastforce
    then have "filter (\<lambda>b. j AND b = b) (p # ps) = []"
      by (simp add: not_contained_above filter_empty_conv)
    with False show ?thesis by simp
  qed
qed

text \<open>
  Claim C3. For every tuplet class \<open>i\<close> and every byte value, the scan of the source, which
  stops at the first pattern that exceeds the byte, returns the count of the full scan of
  the class's pattern list, and that count is the table entry \<^verbatim>\<open>primeByteCounts_[i][byte]\<close>.
  The contained patterns among those scanned before the exit are the contained patterns
  of the entire list; no pattern greater than the byte is contained in it.
\<close>

theorem early_exit_scan_equals_full_scan:
  assumes "i < COUNTS_SIZE" and "fl AND push_bit i COUNT_PRIMES \<noteq> 0"
  shows "\<exists>byteCounts. init_primeByteCounts fl = Inr byteCounts \<and>
           (\<forall>byte::u8.
              count_scan (bitmasks ! i) (ucast byte) 0
                = Inr (full_scan_count (patterns i) (ucast byte)) \<and>
              byteCount_at byteCounts i byte = Inr (full_scan_count (patterns i) (ucast byte)) \<and>
              filter (\<lambda>b. ucast byte AND b = b) (takeWhile (\<lambda>b. b \<le> ucast byte) (patterns i))
                = filter (\<lambda>b. ucast byte AND b = b) (patterns i) \<and>
              (\<forall>b \<in> set (patterns i). ucast byte < b \<longrightarrow> ucast byte AND b \<noteq> b))"
proof -
  obtain byteCounts where bc: "init_primeByteCounts fl = Inr byteCounts"
    by (simp add: init_primeByteCounts_eq)
  show ?thesis
    using bc byteCount_at_init [OF assms bc] count_scan_row [OF assms(1) ucast_less_END]
      not_contained_above filter_takeWhile_sorted [OF patterns_sorted [OF assms(1)]]
    by blast
qed

theorem early_exit_scan_equals_full_scan_witness:
  "(2::nat) < COUNTS_SIZE \<and> (4::u32) AND push_bit 2 COUNT_PRIMES \<noteq> 0 \<and>
   (\<exists>byteCounts. init_primeByteCounts 4 = Inr byteCounts \<and>
      count_scan (bitmasks ! 2) 0x1F 0 = Inr 3 \<and> byteCount_at byteCounts 2 0x1F = Inr 3 \<and>
      full_scan_count (patterns 2) 0x1F = 3)"
proof -
  have h: "(2::nat) < COUNTS_SIZE" "(4::u32) AND push_bit 2 COUNT_PRIMES \<noteq> 0"
    by (simp_all add: COUNT_PRIMES_def COUNTS_SIZE_def)
  have c: "full_scan_count (patterns 2) (ucast (0x1F::u8)) = 3"
    by (simp add: full_scan_count_def patterns_def bitmasks_def END_def BYTE_SIZE_def)
  from early_exit_scan_equals_full_scan [OF h] obtain byteCounts
    where "init_primeByteCounts 4 = Inr byteCounts"
      and "\<forall>byte::u8.
              count_scan (bitmasks ! 2) (ucast byte) 0
                = Inr (full_scan_count (patterns 2) (ucast byte)) \<and>
              byteCount_at byteCounts 2 byte = Inr (full_scan_count (patterns 2) (ucast byte))"
    by blast
  then have "init_primeByteCounts 4 = Inr byteCounts \<and>
      count_scan (bitmasks ! 2) (ucast (0x1F::u8)) 0 = Inr 3 \<and>
      byteCount_at byteCounts 2 (0x1F::u8) = Inr 3"
    using c by metis
  with h c show ?thesis by auto
qed

section \<open>Counting a segment\<close>

lemma load_u64_Cons: "load_u64 (b # bs) = ucast b OR push_bit 8 (load_u64 bs)"
  by (simp add: load_u64_def)

lemma bit_load_u64_bound: "bit (load_u64 bs) n \<Longrightarrow> n < 8 * length bs"
proof (induction bs arbitrary: n)
  case Nil
  then show ?case by (simp add: load_u64_def)
next
  case (Cons b bs)
  from Cons.prems consider "bit b n" | "8 \<le> n" "bit (load_u64 bs) (n - 8)"
    by (auto simp: load_u64_Cons bit_simps)
  then show ?case
  proof cases
    case 1
    then have "n < 8" using bit_imp_le_length [of b n] by simp
    then show ?thesis by simp
  next
    case 2
    with Cons.IH [of "n - 8"] show ?thesis by simp
  qed
qed

lemma popcount_load_u64:
  "length bs \<le> 8 \<Longrightarrow> popcount (load_u64 bs) = sum_list (map popcount bs)"
proof (induction bs)
  case Nil
  then show ?case by (simp add: load_u64_def popcount_card)
next
  case (Cons b bs)
  let ?A = "{n. bit b n}" and ?B = "{m. bit (load_u64 bs) m}"
  have bound: "m < 56" if "m \<in> ?B" for m
    using that bit_load_u64_bound [of bs m] Cons.prems by simp
  have "{n. bit (load_u64 (b # bs)) n} = ?A \<union> (\<lambda>m. m + 8) ` ?B"
  proof (intro set_eqI iffI)
    fix n assume "n \<in> {n. bit (load_u64 (b # bs)) n}"
    then consider "bit b n" | "8 \<le> n" "bit (load_u64 bs) (n - 8)"
      by (auto simp: load_u64_Cons bit_simps)
    then show "n \<in> ?A \<union> (\<lambda>m. m + 8) ` ?B"
    proof cases
      case 1 then show ?thesis by simp
    next
      case 2
      then have "n - 8 \<in> ?B" "n = (n - 8) + 8" by simp_all
      then show ?thesis by blast
    qed
  next
    fix n assume "n \<in> ?A \<union> (\<lambda>m. m + 8) ` ?B"
    then consider "bit b n" | m where "n = m + 8" "bit (load_u64 bs) m"
      by auto
    then show "n \<in> {n. bit (load_u64 (b # bs)) n}"
    proof cases
      case 1
      then have "n < 8" using bit_imp_le_length [of b n] by simp
      with 1 show ?thesis by (simp add: load_u64_Cons bit_simps)
    next
      case 2
      then have "m < 56" using bound by simp
      with 2 show ?thesis by (simp add: load_u64_Cons bit_simps)
    qed
  qed
  moreover have "?A \<inter> (\<lambda>m. m + 8) ` ?B = {}"
    using bit_imp_le_length [of b] by fastforce
  moreover have "card ((\<lambda>m. m + 8) ` ?B) = card ?B"
    by (intro card_image) (simp add: inj_on_def)
  ultimately have "card {n. bit (load_u64 (b # bs)) n} = card ?A + card ?B"
    by (simp add: card_Un_disjoint)
  with Cons show ?case by (simp add: popcount_card)
qed

lemma unat_plus1: "(i::u32) < s \<Longrightarrow> unat (i + 1) = Suc (unat i)"
  using unsigned_less [of s, where ?'a = nat] by (simp add: unat_word_ariths word_less_nat_alt)

lemma lookup_loop_sum:
  assumes "\<And>byte. byteCount_at byteCounts c byte = Inr (g byte)"
    and "length sieve = unat sieveSize" and "i \<le> sieveSize"
  shows "lookup_loop byteCounts c sieve sieveSize i cnt
       = Inr (cnt + sum_list (map g (drop (unat i) sieve)))"
  using assms
proof (induction byteCounts c sieve sieveSize i cnt rule: lookup_loop.induct)
  case (1 byteCounts c sieve sieveSize i cnt)
  show ?case
  proof (cases "i < sieveSize")
    case True
    then have lt: "unat i < length sieve"
      using "1.prems" by (simp add: word_less_nat_alt)
    have suc: "unat (i + 1) = Suc (unat i)"
      using True by (rule unat_plus1)
    have le: "i + 1 \<le> sieveSize"
      using True suc by (simp add: word_le_nat_alt word_less_nat_alt)
    have "lookup_loop byteCounts c sieve sieveSize (i + 1) (cnt + g (sieve ! unat i))
        = Inr (cnt + g (sieve ! unat i) + sum_list (map g (drop (unat (i + 1)) sieve)))"
      using "1.IH" [OF True lt "1.prems"(1) "1.prems"(1) "1.prems"(2) le] .
    moreover have "drop (unat i) sieve = sieve ! unat i # drop (Suc (unat i)) sieve"
      using lt by (simp add: Cons_nth_drop_Suc)
    ultimately show ?thesis
      using True lt "1.prems"(1) suc
      by (subst lookup_loop.simps) (simp add: add.assoc)
  next
    case False
    with "1.prems" have "i = sieveSize" by simp
    with "1.prems" show ?thesis by (subst lookup_loop.simps) simp
  qed
qed

lemma of_nat_sum_list_word: "(of_nat (sum_list ns) :: u32) = sum_list (map of_nat ns)"
  by (induction ns) simp_all

lemma POPCNT64_sum:
  "POPCNT64 sieve k = sum_list (map (\<lambda>b. of_nat (popcount b)) (take 8 (drop k sieve)))"
  by (simp add: POPCNT64_def popcount_load_u64 of_nat_sum_list_word comp_def)

lemma popcnt_loop_sum:
  assumes "length sieve = unat sieveSize" and "unat sieveSize \<le> 2 ^ 32 - 8"
    and "i \<le> sieveSize" and "unat i + 8 < 2 ^ 32"
  shows "\<exists>i'. popcnt_loop sieve sieveSize i c
           = Inr (i', c + sum_list (map (\<lambda>b. of_nat (popcount b))
                                     (take (unat i' - unat i) (drop (unat i) sieve)))) \<and>
           i \<le> i' \<and> i' \<le> sieveSize \<and> unat sieveSize \<le> unat i' + 8 \<and>
           unat i' mod 8 = unat i mod 8 \<and> (i' = i \<or> i' < sieveSize)"
  using assms
proof (induction sieve sieveSize i c rule: popcnt_loop.induct)
  case (1 sieve sieveSize i c)
  have add8: "unat (i + 8) = unat i + 8"
    using "1.prems"(4) by (simp add: unat_word_ariths)
  show ?case
  proof (cases "i + 8 < sieveSize")
    case True
    then have lt: "unat i + 8 < unat sieveSize"
      using add8 by (simp add: word_less_nat_alt)
    then have inb: "unat i + 8 \<le> unat sieveSize \<and> unat i + 8 \<le> length sieve"
      using "1.prems"(1) by simp
    have le': "i + 8 \<le> sieveSize"
      using True by simp
    have nowrap: "unat (i + 8) + 8 < 2 ^ 32"
      using lt add8 "1.prems"(2) by simp
    from "1.IH" [OF True inb "1.prems"(1) "1.prems"(2) le' nowrap]
    obtain i' where
      r: "popcnt_loop sieve sieveSize (i + 8) (c + POPCNT64 sieve (unat i))
           = Inr (i', c + POPCNT64 sieve (unat i) + sum_list (map (\<lambda>b. of_nat (popcount b))
                   (take (unat i' - unat (i + 8)) (drop (unat (i + 8)) sieve))))"
      and p: "i + 8 \<le> i'" "i' \<le> sieveSize" "unat sieveSize \<le> unat i' + 8"
        "unat i' mod 8 = unat (i + 8) mod 8" "i' = i + 8 \<or> i' < sieveSize"
      by blast
    have ge: "unat i + 8 \<le> unat i'"
      using p(1) add8 by (simp add: word_le_nat_alt)
    define m where "m = unat i' - unat (i + 8)"
    have "unat i' - unat i = 8 + m"
      using ge add8 by (simp add: m_def)
    moreover have "drop 8 (drop (unat i) sieve) = drop (unat (i + 8)) sieve"
      by (simp add: add8 add.commute)
    ultimately have "take (unat i' - unat i) (drop (unat i) sieve)
        = take 8 (drop (unat i) sieve) @ take m (drop (unat (i + 8)) sieve)"
      by (simp only: take_add)
    then have s: "c + POPCNT64 sieve (unat i) + sum_list (map (\<lambda>b. of_nat (popcount b))
                   (take (unat i' - unat (i + 8)) (drop (unat (i + 8)) sieve)))
        = c + sum_list (map (\<lambda>b. of_nat (popcount b)) (take (unat i' - unat i) (drop (unat i) sieve)))"
      unfolding m_def by (simp only: POPCNT64_sum map_append sum_list_append add.assoc)
    have "popcnt_loop sieve sieveSize i c
        = popcnt_loop sieve sieveSize (i + 8) (c + POPCNT64 sieve (unat i))"
      using True inb by (subst popcnt_loop.simps) simp
    moreover have "i \<le> i'"
      using ge by (simp add: word_le_nat_alt)
    moreover have "i' < sieveSize"
      using p(5) True by auto
    moreover have "unat i' mod 8 = unat i mod 8"
      using p(4) add8 by simp
    ultimately show ?thesis
      using r s p by auto
  next
    case False
    then have "unat sieveSize \<le> unat i + 8"
      using add8 by (simp add: word_less_nat_alt)
    with False show ?thesis
      using "1.prems"(3) by (subst popcnt_loop.simps) simp
  qed
qed

lemma sum_take_drop:
  "sum_list (map g (take n xs)) + sum_list (map g (drop n xs)) = (sum_list (map g xs) :: u32)"
proof -
  have "sum_list (map g (take n xs @ drop n xs)) = sum_list (map g xs)"
    by simp
  then show ?thesis
    by (simp only: map_append sum_list_append)
qed

lemma count_primes_total:
  assumes "length sieve = unat sieveSize"
    and "POPCNT64_defined \<and> fl AND SSE4_POPCNT \<noteq> 0 \<Longrightarrow> unat sieveSize \<le> 2 ^ 32 - 8"
    and "\<And>byte. byteCount_at byteCounts 0 byte = Inr (full_scan_count (patterns 0) (ucast byte))"
  shows "count_primes POPCNT64_defined fl byteCounts sieve sieveSize = Inr (class_total 0 sieve)"
proof (cases "POPCNT64_defined \<and> fl AND SSE4_POPCNT \<noteq> 0")
  case True
  then have b: "unat sieveSize \<le> 2 ^ 32 - 8" by (rule assms(2))
  from popcnt_loop_sum [OF assms(1) b, of 0 0] obtain i' where
    r: "popcnt_loop sieve sieveSize 0 0
         = Inr (i', sum_list (map (\<lambda>b. of_nat (popcount b)) (take (unat i') sieve)))"
    and le: "i' \<le> sieveSize"
    by auto
  have "lookup_loop byteCounts 0 sieve sieveSize i'
          (sum_list (map (\<lambda>b. of_nat (popcount b)) (take (unat i') sieve)))
      = Inr (sum_list (map (\<lambda>b. of_nat (popcount b)) (take (unat i') sieve))
             + sum_list (map (\<lambda>b. of_nat (popcount b)) (drop (unat i') sieve)))"
    using lookup_loop_sum [OF _ assms(1) le, of byteCounts 0 "\<lambda>b. of_nat (popcount b)"] assms(3)
    by (simp add: full_scan_count_prime)
  with True r show ?thesis
    by (simp add: count_primes_def sum_take_drop class_total_def full_scan_count_prime)
next
  case False
  then show ?thesis
    using lookup_loop_sum [OF assms(3) assms(1), of 0 0]
    by (auto simp: count_primes_def class_total_def)
qed

lemma length_count_step: "length (count_step fl sieve cs i) = length cs"
  by (simp add: count_step_def)

lemma count_ktuplets_eq:
  assumes "length sieve = unat sieveSize" and "init_primeByteCounts fl = Inr byteCounts"
    and "set is \<subseteq> {0..<COUNTS_SIZE}" and "length cs = COUNTS_SIZE"
  shows "count_ktuplets fl byteCounts sieve sieveSize is cs = Inr (foldl (count_step fl sieve) cs is)"
  using assms(3,4)
proof (induction "is" arbitrary: cs)
  case Nil
  then show ?case by simp
next
  case (Cons i "is")
  then have i: "i < COUNTS_SIZE" by simp
  have len: "length (count_step fl sieve cs i) = COUNTS_SIZE"
    using Cons.prems by (simp add: length_count_step)
  have rest: "count_ktuplets fl byteCounts sieve sieveSize is (count_step fl sieve cs i)
      = Inr (foldl (count_step fl sieve) (count_step fl sieve cs i) is)"
    using Cons.IH [OF _ len] Cons.prems by simp
  show ?case
  proof (cases "fl AND push_bit i COUNT_PRIMES \<noteq> 0")
    case True
    have "lookup_loop byteCounts i sieve sieveSize 0 0 = Inr (class_total i sieve)"
      using lookup_loop_sum [OF byteCount_at_init [OF i True assms(2)] assms(1), of 0 0]
      by (simp add: class_total_def)
    moreover have "count_step fl sieve cs i = cs[i := cs ! i + ucast (class_total i sieve)]"
      using True by (simp add: count_step_def)
    ultimately show ?thesis
      using True rest i Cons.prems by (simp add: add_count_def)
  next
    case False
    then have "count_step fl sieve cs i = cs"
      by (simp add: count_step_def)
    with False rest show ?thesis by simp
  qed
qed

lemma count_eq:
  assumes "length sieve = unat sieveSize"
    and "POPCNT64_defined \<and> flags (primeSieve f) AND SSE4_POPCNT \<noteq> 0
           \<Longrightarrow> unat sieveSize \<le> 2 ^ 32 - 8"
    and "init_primeByteCounts (flags (primeSieve f)) = Inr (primeByteCounts f)"
    and "length (counts (primeSieve f)) = COUNTS_SIZE"
  shows "count POPCNT64_defined f sieve sieveSize
       = Inr (f\<lparr>primeSieve := (primeSieve f)
                 \<lparr>counts := counted (flags (primeSieve f)) sieve (counts (primeSieve f))\<rparr>\<rparr>)"
proof -
  let ?fl = "flags (primeSieve f)" and ?cs = "counts (primeSieve f)"
  have up: "[0..<COUNTS_SIZE] = 0 # [1..<COUNTS_SIZE]"
    by (simp add: COUNTS_SIZE_def upt_rec)
  have first: "(if ?fl AND COUNT_PRIMES \<noteq> 0
               then (case count_primes POPCNT64_defined ?fl (primeByteCounts f) sieve sieveSize of
                       Inl e \<Rightarrow> Inl e
                     | Inr primeCount \<Rightarrow> add_count ?cs 0 primeCount)
               else Inr ?cs) = Inr (count_step ?fl sieve ?cs 0)"
  proof (cases "?fl AND COUNT_PRIMES \<noteq> 0")
    case True
    then have en: "?fl AND push_bit 0 COUNT_PRIMES \<noteq> 0" by simp
    have "count_primes POPCNT64_defined ?fl (primeByteCounts f) sieve sieveSize
        = Inr (class_total 0 sieve)"
      using count_primes_total [OF assms(1,2)] byteCount_at_init [OF _ en assms(3)]
      by (simp add: COUNTS_SIZE_def)
    with True assms(4) show ?thesis
      by (simp add: add_count_def count_step_def COUNTS_SIZE_def)
  next
    case False
    then show ?thesis by (simp add: count_step_def)
  qed
  then have first':
    "\<And>P. (case (if ?fl AND COUNT_PRIMES \<noteq> 0
               then (case count_primes POPCNT64_defined ?fl (primeByteCounts f) sieve sieveSize of
                       Inl e \<Rightarrow> Inl e
                     | Inr primeCount \<Rightarrow> add_count ?cs 0 primeCount)
               else Inr ?cs) of Inl e \<Rightarrow> Inl e | Inr cs \<Rightarrow> P cs) = P (count_step ?fl sieve ?cs 0)"
    by simp
  have "count_ktuplets ?fl (primeByteCounts f) sieve sieveSize [1..<COUNTS_SIZE]
          (count_step ?fl sieve ?cs 0)
      = Inr (foldl (count_step ?fl sieve) (count_step ?fl sieve ?cs 0) [1..<COUNTS_SIZE])"
    using count_ktuplets_eq [OF assms(1,3), of "[1..<COUNTS_SIZE]" "count_step ?fl sieve ?cs 0"]
      assms(4)
    by (simp add: length_count_step subset_iff)
  then show ?thesis
    unfolding count_def counted_def up Let_def first' by simp
qed

lemma popcnt_loop_overflow:
  assumes "sieveSize = 0xFFFFFFFF" and "unat i mod 8 = 0"
  shows "popcnt_loop sieve sieveSize i c = Inl OutOfBounds"
  using assms
proof (induction sieve sieveSize i c rule: popcnt_loop.induct)
  case (1 sieve sieveSize i c)
  have "unat (i + 8) = (unat i + 8) mod 4294967296"
    by (simp add: unat_word_ariths)
  moreover have "(unat i + 8) mod 4294967296 mod 8 = (unat i + 8) mod 8"
    by (rule mod_mod_cancel) simp
  ultimately have m8: "unat (i + 8) mod 8 = 0"
    using "1.prems"(2) by simp
  show ?case
  proof (cases "i + 8 < sieveSize")
    case True
    show ?thesis
    proof (cases "unat i + 8 \<le> unat sieveSize \<and> unat i + 8 \<le> length sieve")
      case inb: True
      from "1.IH" [OF True inb "1.prems"(1) m8] True inb show ?thesis
        by (subst popcnt_loop.simps) simp
    next
      case False
      with True show ?thesis
        by (subst popcnt_loop.simps) auto
    qed
  next
    case False
    then have "unat sieveSize \<le> unat (i + 8)"
      by (simp add: not_less word_le_nat_alt)
    then have "4294967295 \<le> unat (i + 8)"
      using "1.prems"(1) by simp
    moreover have "unat (i + 8) < 4294967296"
      using unsigned_less [of "i + 8", where ?'a = nat] by simp
    ultimately have "unat (i + 8) = 4294967295" by simp
    with m8 show ?thesis by simp
  qed
qed

lemma new_PrimeNumberFinder_Inr:
  assumes "new_PrimeNumberFinder ps isPOPCNTSupported bvs = Inr f"
  shows "flags (primeSieve f) = (if isPOPCNTSupported then flags ps OR SSE4_POPCNT else flags ps)"
    and "counts (primeSieve f) = counts ps"
    and "world (primeSieve f) = world ps"
    and "init_primeByteCounts (flags (primeSieve f)) = Inr (primeByteCounts f)"
    and "init_primeBitValues (flags (primeSieve f)) bvs = Inr (primeBitValues f)"
    and "bitValues f = bvs"
    and "soe_startNumber f = max (getStartNumber ps) 7"
  using assms
  by (auto simp: new_PrimeNumberFinder_def initLookupTables_def Let_def
      split: sum.splits if_splits)

lemma bit_SSE4_POPCNT: "bit SSE4_POPCNT n = (n = 22)"
proof -
  have "bit (2 ^ 22 :: u32) n = (n = 22)"
    unfolding bit_exp_iff by (auto simp: possible_bit_word)
  moreover have "SSE4_POPCNT = 2 ^ 22"
    by (simp add: SSE4_POPCNT_def)
  ultimately show ?thesis
    by (simp only:)
qed

lemma count_flag_SSE4:
  "i < COUNTS_SIZE \<Longrightarrow>
   ((fl OR SSE4_POPCNT) AND push_bit i COUNT_PRIMES \<noteq> 0) = (fl AND push_bit i COUNT_PRIMES \<noteq> 0)"
  by (auto simp: count_flag_bit bit_or_iff bit_SSE4_POPCNT COUNTS_SIZE_def)

lemma foldl_count_step_cong:
  assumes "\<And>i. i \<in> set is \<Longrightarrow>
             (fl AND push_bit i COUNT_PRIMES \<noteq> 0) = (fl' AND push_bit i COUNT_PRIMES \<noteq> 0)"
  shows "foldl (count_step fl sieve) cs is = foldl (count_step fl' sieve) cs is"
  using assms by (induction "is" arbitrary: cs) (simp_all add: count_step_def)

lemma counted_SSE4: "counted (fl OR SSE4_POPCNT) sieve cs = counted fl sieve cs"
  unfolding counted_def by (rule foldl_count_step_cong) (simp add: count_flag_SSE4)

text \<open>
  Claim C2, as amended. For a segment of at most \<open>2^32 - 8\<close> bytes, a finder constructed on a
  processor with POPCNT and one constructed without it both return from \<^verbatim>\<open>count\<close> and leave
  the same counters; the plain-prime count of the 8-byte POPCNT chunks followed by the
  per-byte table is the sum of the table entries of all bytes, as computed by the pure
  table path.
\<close>

theorem hardware_and_table_counts_agree:
  assumes "new_PrimeNumberFinder ps True bvs = Inr f_hw"
    and "new_PrimeNumberFinder ps False bvs = Inr f_tab"
    and "flags ps AND COUNT_PRIMES \<noteq> 0" and "length (counts ps) = COUNTS_SIZE"
    and "length sieve = unat sieveSize" and "unat sieveSize \<le> 2 ^ 32 - 8"
  shows "\<exists>f1 f2. count True f_hw sieve sieveSize = Inr f1 \<and>
           count True f_tab sieve sieveSize = Inr f2 \<and>
           counts (primeSieve f1) = counts (primeSieve f2) \<and>
           counts (primeSieve f2) = counted (flags ps) sieve (counts ps) \<and>
           count_primes True (flags (primeSieve f_hw)) (primeByteCounts f_hw) sieve sieveSize
             = Inr (class_total 0 sieve) \<and>
           count_primes True (flags (primeSieve f_tab)) (primeByteCounts f_tab) sieve sieveSize
             = Inr (class_total 0 sieve)"
proof -
  note hw = new_PrimeNumberFinder_Inr [OF assms(1)]
  note tab = new_PrimeNumberFinder_Inr [OF assms(2)]
  have c1: "count True f_hw sieve sieveSize
      = Inr (f_hw\<lparr>primeSieve := (primeSieve f_hw)
               \<lparr>counts := counted (flags ps) sieve (counts ps)\<rparr>\<rparr>)"
    using count_eq [OF assms(5) assms(6) hw(4)] assms(4) hw(1,2)
    by (simp add: counted_SSE4)
  have c2: "count True f_tab sieve sieveSize
      = Inr (f_tab\<lparr>primeSieve := (primeSieve f_tab)
               \<lparr>counts := counted (flags ps) sieve (counts ps)\<rparr>\<rparr>)"
    using count_eq [OF assms(5) assms(6) tab(4)] assms(4) tab(1,2)
    by simp
  have en_hw: "flags (primeSieve f_hw) AND push_bit 0 COUNT_PRIMES \<noteq> 0"
    using assms(3) hw(1) count_flag_SSE4 [of 0 "flags ps"] by (simp add: COUNTS_SIZE_def)
  have en_tab: "flags (primeSieve f_tab) AND push_bit 0 COUNT_PRIMES \<noteq> 0"
    using assms(3) tab(1) by simp
  have p1: "count_primes True (flags (primeSieve f_hw)) (primeByteCounts f_hw) sieve sieveSize
      = Inr (class_total 0 sieve)"
    using count_primes_total [OF assms(5) assms(6)] byteCount_at_init [OF _ en_hw hw(4)]
    by (simp add: COUNTS_SIZE_def)
  have p2: "count_primes True (flags (primeSieve f_tab)) (primeByteCounts f_tab) sieve sieveSize
      = Inr (class_total 0 sieve)"
    using count_primes_total [OF assms(5) assms(6)] byteCount_at_init [OF _ en_tab tab(4)]
    by (simp add: COUNTS_SIZE_def)
  show ?thesis
    using c1 c2 p1 p2 by simp
qed

lemma bit_CALLBACK_PRIMES: "bit CALLBACK_PRIMES n = (n = 20)"
proof -
  have "bit (2 ^ 20 :: u32) n = (n = 20)"
    unfolding bit_exp_iff by (auto simp: possible_bit_word)
  moreover have "CALLBACK_PRIMES = 2 ^ 20"
    by (simp add: CALLBACK_PRIMES_def)
  ultimately show ?thesis
    by (simp only:)
qed

lemma bit_CALLBACK_PRIMES_OOP: "bit CALLBACK_PRIMES_OOP n = (n = 21)"
proof -
  have "bit (2 ^ 21 :: u32) n = (n = 21)"
    unfolding bit_exp_iff by (auto simp: possible_bit_word)
  moreover have "CALLBACK_PRIMES_OOP = 2 ^ 21"
    by (simp add: CALLBACK_PRIMES_OOP_def)
  ultimately show ?thesis
    by (simp only:)
qed

lemma bit_PRINT_FLAGS: "bit PRINT_FLAGS n = (7 \<le> n \<and> n < 14)"
proof -
  have e: "PRINT_FLAGS = push_bit 7 (mask 7)"
    by (simp add: PRINT_FLAGS_def mask_eq_exp_minus_1)
  show ?thesis
    unfolding e by (auto simp: bit_simps)
qed

lemma bit_GENERATE_FLAGS: "bit GENERATE_FLAGS n = ((7 \<le> n \<and> n < 14) \<or> n = 20 \<or> n = 21)"
  by (simp add: GENERATE_FLAGS_def bit_or_iff bit_PRINT_FLAGS bit_CALLBACK_PRIMES
      bit_CALLBACK_PRIMES_OOP)

lemma and_eq_0_iff_bits: "((fl::u32) AND m = 0) = (\<forall>n. \<not> (bit fl n \<and> bit m n))"
proof
  assume z: "fl AND m = 0"
  show "\<forall>n. \<not> (bit fl n \<and> bit m n)"
  proof
    fix n
    from z have "\<not> bit (fl AND m) n" by simp
    then show "\<not> (bit fl n \<and> bit m n)" by (simp add: bit_and_iff)
  qed
next
  assume "\<forall>n. \<not> (bit fl n \<and> bit m n)"
  then show "fl AND m = 0"
    by (intro bit_eqI) (simp add: bit_and_iff)
qed

lemma new_PrimeNumberFinder_no_generate:
  assumes "fl AND GENERATE_FLAGS = 0" and "SSE4_POPCNT AND GENERATE_FLAGS = 0"
  shows "\<exists>f. new_PrimeNumberFinder (example_PrimeSieve fl) isPOPCNTSupported bvs = Inr f"
proof -
  have "(fl OR SSE4_POPCNT) AND GENERATE_FLAGS = 0"
    using assms by (simp add: bit.conj_disj_distrib2)
  then show ?thesis
    using assms(1)
    by (simp add: new_PrimeNumberFinder_def initLookupTables_def init_primeByteCounts_eq
        init_primeBitValues_def example_PrimeSieve_def Let_def)
qed

lemma SSE4_not_generate: "SSE4_POPCNT AND GENERATE_FLAGS = 0"
  by (simp add: and_eq_0_iff_bits bit_SSE4_POPCNT bit_GENERATE_FLAGS)

lemma COUNT_PRIMES_not_generate: "COUNT_PRIMES AND GENERATE_FLAGS = 0"
  by (auto simp: and_eq_0_iff_bits bit_GENERATE_FLAGS COUNT_PRIMES_def bit_1_iff)

theorem hardware_and_table_counts_agree_witness:
  "\<exists>f_hw f_tab.
     new_PrimeNumberFinder (example_PrimeSieve COUNT_PRIMES) True bitValues_std = Inr f_hw \<and>
     new_PrimeNumberFinder (example_PrimeSieve COUNT_PRIMES) False bitValues_std = Inr f_tab \<and>
     flags (example_PrimeSieve COUNT_PRIMES) AND COUNT_PRIMES \<noteq> 0 \<and>
     length (counts (example_PrimeSieve COUNT_PRIMES)) = COUNTS_SIZE \<and>
     length [0xFF, 0xFF, 0xFF, 0xFF, 0xFF, 0xFF, 0xFF, 0xFF, 0x03, 0x03, 0x03, 0x03, 0x03, 0x03,
             0x03, 0x03, 0x03 :: u8] = unat (17::u32) \<and>
     unat (17::u32) \<le> 2 ^ 32 - 8 \<and>
     (\<exists>f1 f2.
        count True f_hw [0xFF, 0xFF, 0xFF, 0xFF, 0xFF, 0xFF, 0xFF, 0xFF, 0x03, 0x03, 0x03, 0x03,
                         0x03, 0x03, 0x03, 0x03, 0x03] 17 = Inr f1 \<and>
        count True f_tab [0xFF, 0xFF, 0xFF, 0xFF, 0xFF, 0xFF, 0xFF, 0xFF, 0x03, 0x03, 0x03, 0x03,
                          0x03, 0x03, 0x03, 0x03, 0x03] 17 = Inr f2 \<and>
        counts (primeSieve f1) = counts (primeSieve f2))"
proof -
  let ?ps = "example_PrimeSieve COUNT_PRIMES"
  let ?sieve = "[0xFF, 0xFF, 0xFF, 0xFF, 0xFF, 0xFF, 0xFF, 0xFF, 0x03, 0x03, 0x03, 0x03, 0x03,
                 0x03, 0x03, 0x03, 0x03 :: u8]"
  obtain f_hw where hw: "new_PrimeNumberFinder ?ps True bitValues_std = Inr f_hw"
    using new_PrimeNumberFinder_no_generate [OF COUNT_PRIMES_not_generate SSE4_not_generate]
    by blast
  obtain f_tab where tab: "new_PrimeNumberFinder ?ps False bitValues_std = Inr f_tab"
    using new_PrimeNumberFinder_no_generate [OF COUNT_PRIMES_not_generate SSE4_not_generate]
    by blast
  have h3: "flags ?ps AND COUNT_PRIMES \<noteq> 0"
    by (simp add: example_PrimeSieve_def COUNT_PRIMES_def)
  have h4: "length (counts ?ps) = COUNTS_SIZE"
    by (simp add: example_PrimeSieve_def COUNTS_SIZE_def)
  have h5: "length ?sieve = unat (17::u32)" by simp
  have h6: "unat (17::u32) \<le> 2 ^ 32 - 8" by simp
  from hardware_and_table_counts_agree [OF hw tab h3 h4 h5 h6]
  show ?thesis
    using hw tab h3 h4 h5 h6 by blast
qed

theorem hardware_count_fails_on_longest_segment:
  "(case new_PrimeNumberFinder (example_PrimeSieve COUNT_PRIMES) True bitValues_std of
      Inl e \<Rightarrow> False
    | Inr f \<Rightarrow> count True f (replicate 4294967295 0) 0xFFFFFFFF = Inl OutOfBounds) \<and>
   (case new_PrimeNumberFinder (example_PrimeSieve COUNT_PRIMES) False bitValues_std of
      Inl e \<Rightarrow> False
    | Inr f \<Rightarrow>
        (case count True f (replicate 4294967295 0) 0xFFFFFFFF of
           Inl e \<Rightarrow> False
         | Inr f' \<Rightarrow> counts (primeSieve f') = [0, 0, 0, 0, 0, 0, 0]))"
proof -
  let ?ps = "example_PrimeSieve COUNT_PRIMES"
  let ?sieve = "replicate 4294967295 (0::u8)"
  obtain f_hw where hw: "new_PrimeNumberFinder ?ps True bitValues_std = Inr f_hw"
    using new_PrimeNumberFinder_no_generate [OF COUNT_PRIMES_not_generate SSE4_not_generate]
    by blast
  obtain f_tab where tab: "new_PrimeNumberFinder ?ps False bitValues_std = Inr f_tab"
    using new_PrimeNumberFinder_no_generate [OF COUNT_PRIMES_not_generate SSE4_not_generate]
    by blast
  note hwf = new_PrimeNumberFinder_Inr [OF hw]
  note tabf = new_PrimeNumberFinder_Inr [OF tab]
  have fl_hw: "flags (primeSieve f_hw) = COUNT_PRIMES OR SSE4_POPCNT"
    using hwf(1) by (simp add: example_PrimeSieve_def)
  have fl_tab: "flags (primeSieve f_tab) = COUNT_PRIMES"
    using tabf(1) by (simp add: example_PrimeSieve_def)
  have "popcnt_loop ?sieve 0xFFFFFFFF 0 0 = Inl OutOfBounds"
    by (rule popcnt_loop_overflow) simp_all
  then have "count_primes True (COUNT_PRIMES OR SSE4_POPCNT) (primeByteCounts f_hw) ?sieve 0xFFFFFFFF
      = Inl OutOfBounds"
    by (simp add: count_primes_def COUNT_PRIMES_def SSE4_POPCNT_def)
  then have a: "count True f_hw ?sieve 0xFFFFFFFF = Inl OutOfBounds"
    by (simp add: count_def fl_hw Let_def COUNT_PRIMES_def SSE4_POPCNT_def)
  have nohw: "\<not> (True \<and> flags (primeSieve f_tab) AND SSE4_POPCNT \<noteq> 0)"
    by (simp add: fl_tab COUNT_PRIMES_def SSE4_POPCNT_def)
  have len: "length ?sieve = unat (0xFFFFFFFF::u32)" by simp
  have cs: "length (counts (primeSieve f_tab)) = COUNTS_SIZE"
    using tabf(2) by (simp add: example_PrimeSieve_def COUNTS_SIZE_def)
  have "full_scan_count (patterns 0) (ucast (0::u8)) = 0"
    unfolding full_scan_count_prime by (simp add: popcount_def)
  then have "class_total 0 ?sieve = 0"
    by (simp add: class_total_def sum_list_replicate)
  then have "counted COUNT_PRIMES ?sieve [0, 0, 0, 0, 0, 0, 0] = [0, 0, 0, 0, 0, 0, 0]"
    by (simp add: counted_def count_step_def COUNT_PRIMES_def COUNTS_SIZE_def upt_rec)
  then have b: "\<exists>f'. count True f_tab ?sieve 0xFFFFFFFF = Inr f' \<and>
      counts (primeSieve f') = [0, 0, 0, 0, 0, 0, 0]"
    using count_eq [OF len _ tabf(4) cs, of True] nohw tabf(2) fl_tab
    by (simp add: example_PrimeSieve_def)
  from a b show ?thesis
    by (auto simp: hw tab)
qed

lemma tail_aligned: "k mod 8 = 0 \<Longrightarrow> k < n \<Longrightarrow> n \<le> k + 8 \<Longrightarrow> n mod 8 = 0 \<Longrightarrow> n - k = 8"
    for k n :: nat
proof -
  assume a: "k mod 8 = 0" "k < n" "n \<le> k + 8" "n mod 8 = 0"
  have "k = 8 * (k div 8)" "n = 8 * (n div 8)" using a by auto
  moreover have "k div 8 < n div 8" using a(2) calculation by linarith
  moreover have "n div 8 \<le> k div 8 + 1" using a(3) calculation by linarith
  ultimately show ?thesis by linarith
qed
lemma tail_unaligned: "k mod 8 = 0 \<Longrightarrow> k \<le> n \<Longrightarrow> n \<le> k + 8 \<Longrightarrow> n mod 8 \<noteq> 0 \<Longrightarrow> n - k = n mod 8"
    for k n :: nat
proof -
  assume a: "k mod 8 = 0" "k \<le> n" "n \<le> k + 8" "n mod 8 \<noteq> 0"
  have k: "k = 8 * (k div 8)" using a by auto
  have n: "n = 8 * (n div 8) + n mod 8" by simp
  have r: "n mod 8 < 8" by simp
  have "k div 8 \<le> n div 8" using a(2) by (simp add: div_le_mono)
  moreover have "n div 8 \<le> k div 8"
  proof (rule ccontr)
    assume "\<not> n div 8 \<le> k div 8"
    then have "k div 8 + 1 \<le> n div 8" by simp
    then have "8 * (k div 8) + 8 \<le> 8 * (n div 8)" by simp
    with k n a(3,4) show False by linarith
  qed
  ultimately have "k div 8 = n div 8" by simp
  with k n show ?thesis by linarith
qed

text \<open>
  Claim C4, as amended. With the POPCNT path active and a segment of at most \<open>2^32 - 8\<close>
  bytes, the chunked loop stops at a multiple of 8 and leaves the rest to the table loop.
  The tail has at most 8 bytes; a non-empty segment has a non-empty tail; the tail of a
  segment whose length is a non-zero multiple of 8 is its whole final chunk of 8 bytes.
\<close>

theorem hardware_path_tail_is_one_to_eight_bytes:
  assumes "length sieve = unat sieveSize" and "unat sieveSize \<le> 2 ^ 32 - 8"
  shows "\<exists>i primeCount.
           popcnt_loop sieve sieveSize 0 0 = Inr (i, primeCount) \<and>
           count_primes True (fl OR SSE4_POPCNT) byteCounts sieve sieveSize
             = lookup_loop byteCounts 0 sieve sieveSize i primeCount \<and>
           unat i mod 8 = 0 \<and> unat i \<le> unat sieveSize \<and>
           unat sieveSize - unat i \<le> 8 \<and>
           (sieveSize \<noteq> 0 \<longrightarrow> 1 \<le> unat sieveSize - unat i) \<and>
           (sieveSize \<noteq> 0 \<and> unat sieveSize mod 8 = 0 \<longrightarrow> unat sieveSize - unat i = 8) \<and>
           (unat sieveSize mod 8 \<noteq> 0 \<longrightarrow> unat sieveSize - unat i = unat sieveSize mod 8)"
proof -
  from popcnt_loop_sum [OF assms, of 0 0] obtain i where
    r: "popcnt_loop sieve sieveSize 0 0
         = Inr (i, sum_list (map (\<lambda>b. of_nat (popcount b)) (take (unat i) sieve)))"
    and le: "i \<le> sieveSize" and near: "unat sieveSize \<le> unat i + 8"
    and m8: "unat i mod 8 = 0" and lt: "i = 0 \<or> i < sieveSize"
    by auto
  have "SSE4_POPCNT \<noteq> 0"
    by (simp add: SSE4_POPCNT_def)
  then have hw: "(fl OR SSE4_POPCNT) AND SSE4_POPCNT \<noteq> 0"
    by simp
  have c: "count_primes True (fl OR SSE4_POPCNT) byteCounts sieve sieveSize
      = lookup_loop byteCounts 0 sieve sieveSize i
          (sum_list (map (\<lambda>b. of_nat (popcount b)) (take (unat i) sieve)))"
    using hw r by (simp add: count_primes_def)
  have le': "unat i \<le> unat sieveSize"
    using le by (simp add: word_le_nat_alt)
  have pos: "unat i < unat sieveSize" if "sieveSize \<noteq> 0"
    using lt that by (auto simp: word_less_nat_alt unat_gt_0)
  have t1: "sieveSize \<noteq> 0 \<longrightarrow> 1 \<le> unat sieveSize - unat i"
    using pos by auto
  have t2: "sieveSize \<noteq> 0 \<and> unat sieveSize mod 8 = 0 \<longrightarrow> unat sieveSize - unat i = 8"
    using pos near m8 by (auto intro: tail_aligned)
  have t3: "unat sieveSize mod 8 \<noteq> 0 \<longrightarrow> unat sieveSize - unat i = unat sieveSize mod 8"
    using le' near m8 by (auto intro: tail_unaligned)
  show ?thesis
    using r c m8 le' near t1 t2 t3 by auto
qed

theorem hardware_path_tail_is_one_to_eight_bytes_witness:
  "length [0xFF, 0xFF, 0xFF, 0xFF, 0xFF, 0xFF, 0xFF, 0xFF, 0x03, 0x03, 0x03, 0x03, 0x03, 0x03,
           0x03, 0x03 :: u8] = unat (16::u32) \<and>
   unat (16::u32) \<le> 2 ^ 32 - 8 \<and>
   (\<exists>i primeCount.
      popcnt_loop [0xFF, 0xFF, 0xFF, 0xFF, 0xFF, 0xFF, 0xFF, 0xFF, 0x03, 0x03, 0x03, 0x03, 0x03,
                   0x03, 0x03, 0x03] 16 0 0 = Inr (i, primeCount) \<and>
      unat (16::u32) - unat i = 8)"
proof -
  let ?sieve = "[0xFF, 0xFF, 0xFF, 0xFF, 0xFF, 0xFF, 0xFF, 0xFF, 0x03, 0x03, 0x03, 0x03, 0x03,
                 0x03, 0x03, 0x03 :: u8]"
  have h1: "length ?sieve = unat (16::u32)" by simp
  have h2: "unat (16::u32) \<le> 2 ^ 32 - 8" by simp
  from hardware_path_tail_is_one_to_eight_bytes [OF h1 h2, of 0 None]
  obtain i primeCount where "popcnt_loop ?sieve 16 0 0 = Inr (i, primeCount)"
    and "(16::u32) \<noteq> 0 \<and> unat (16::u32) mod 8 = 0 \<longrightarrow> unat (16::u32) - unat i = 8"
    by blast
  then have "popcnt_loop ?sieve 16 0 0 = Inr (i, primeCount) \<and> unat (16::u32) - unat i = 8"
    by simp
  with h1 h2 show ?thesis by blast
qed

theorem hardware_path_tail_of_eight_bytes:
  "popcnt_loop [0xFF, 0xFF, 0xFF, 0xFF, 0xFF, 0xFF, 0xFF, 0xFF, 0x03, 0x03, 0x03, 0x03, 0x03,
                0x03, 0x03, 0x03] 16 0 0 = Inr (8, 64) \<and>
   \<not> unat (16::u32) - unat (8::u32) \<le> 7"
  by (simp add: popcnt_loop.simps POPCNT64_def load_u64_def popcount_def upt_rec)

section \<open>The value table and generation\<close>

lemma single_bit_and: "n < 32 \<Longrightarrow> ((2 ^ n :: u32) AND fl = 0) = (\<not> bit fl n)"
  using bit_iff_and_push_bit_not_eq_0 [of fl n] by (simp add: and.commute)

lemma generateType_loop_ladder:
  assumes "m + k < 32" and "\<forall>d<k. \<not> bit fl (m + d)" and "bit fl (m + k)"
  shows "generateType_loop fl (2 ^ m) g = Some (g + of_nat k)"
  using assms
proof (induction k arbitrary: m g)
  case 0
  then show ?case
    by (subst generateType_loop.simps) (simp add: single_bit_and)
next
  case (Suc k)
  have nb: "\<not> bit fl m" using Suc.prems(2) by force
  have "generateType_loop fl (2 ^ Suc m) (g + 1) = Some (g + 1 + of_nat k)"
    using Suc.prems by (intro Suc.IH) auto
  then show ?case
    using nb Suc.prems(1)
    by (subst generateType_loop.simps) (simp add: single_bit_and mult.commute)
qed

lemma length_takeWhile_less_length:
  "x \<in> set xs \<Longrightarrow> \<not> P x \<Longrightarrow> length (takeWhile P xs) < length xs"
  by (induction xs) auto

lemma takeWhile_prefix_holds: "d < length (takeWhile P xs) \<Longrightarrow> P (xs ! d)"
  by (induction xs arbitrary: d) (auto simp: nth_Cons split: nat.splits if_splits)

lemma generateType_of_props:
  assumes "fl AND PRINT_FLAGS \<noteq> 0"
  shows "generateType_of fl < COUNTS_SIZE" and "bit fl (7 + generateType_of fl)"
    and "\<forall>d<generateType_of fl. \<not> bit fl (7 + d)"
proof -
  let ?P = "\<lambda>k. \<not> bit fl (7 + k)"
  let ?k = "length (takeWhile ?P [0..<COUNTS_SIZE])"
  have g: "generateType_of fl = ?k"
    using assms by (simp add: generateType_of_def)
  from assms obtain n where n: "bit fl n" "7 \<le> n" "n < 14"
    by (auto simp: and_eq_0_iff_bits bit_PRINT_FLAGS)
  then have "n - 7 \<in> set [0..<COUNTS_SIZE]" "\<not> ?P (n - 7)"
    by (simp_all add: COUNTS_SIZE_def)
  then have lt: "?k < length [0..<COUNTS_SIZE]"
    by (rule length_takeWhile_less_length)
  then show "generateType_of fl < COUNTS_SIZE"
    using g by simp
  from nth_length_takeWhile [OF lt] lt show "bit fl (7 + generateType_of fl)"
    using g by simp
  show "\<forall>d<generateType_of fl. \<not> bit fl (7 + d)"
  proof (intro allI impI)
    fix d assume d: "d < generateType_of fl"
    then have "d < ?k" using g by simp
    then have "?P ([0..<COUNTS_SIZE] ! d)"
      by (rule takeWhile_prefix_holds)
    moreover have "d < COUNTS_SIZE" using d \<open>generateType_of fl < COUNTS_SIZE\<close> by simp
    ultimately show "\<not> bit fl (7 + d)" by simp
  qed
qed

lemma generateType_loop_eq:
  assumes "fl AND PRINT_FLAGS \<noteq> 0"
  shows "generateType_loop fl PRINT_PRIMES 0 = Some (of_nat (generateType_of fl))"
proof -
  note p = generateType_of_props [OF assms]
  have "7 + generateType_of fl < 32"
    using p(1) by (simp add: COUNTS_SIZE_def)
  from generateType_loop_ladder [OF this p(3) p(2), of 0] show ?thesis
    by (simp add: PRINT_PRIMES_def)
qed

lemma value_scan_sorted:
  assumes "sorted ps" and "j < END" and "length row + length ps \<le> 8"
    and "\<forall>p \<in> set ps. ntz p < length bvs"
  shows "value_scan bvs (ps @ END # pad) j row = Inr (row @ offsets bvs ps j @ [END])"
  using assms
proof (induction ps arbitrary: row)
  case Nil
  then have "\<not> END \<le> j" by simp
  with Nil show ?case by (simp add: offsets_def)
next
  case (Cons p ps)
  show ?case
  proof (cases "p \<le> j")
    case True
    have "value_scan bvs (ps @ END # pad) j r = Inr (r @ offsets bvs ps j @ [END])"
      if "length r \<le> Suc (length row)" for r
      using Cons.prems that by (intro Cons.IH) auto
    with True Cons.prems show ?thesis
      by (simp add: offsets_def)
  next
    case False
    with Cons.prems have "\<forall>q \<in> set (p # ps). j < q" by fastforce
    then have "filter (\<lambda>b. j AND b = b) (p # ps) = []"
      by (simp add: not_contained_above filter_empty_conv)
    with False Cons.prems show ?thesis by (simp add: offsets_def)
  qed
qed

lemma ntz_patterns:
  "map ntz (patterns 0) = [0, 1, 2, 3, 4, 5, 6, 7]"
  "map ntz (patterns 1) = [1, 3, 6]"
  "map ntz (patterns 2) = [0, 1, 2, 3]"
  "map ntz (patterns 3) = [1]"
  "map ntz (patterns 4) = [0, 1]"
  "map ntz (patterns 5) = [0]"
  "map ntz (patterns 6) = [1]"
  by (simp_all add: patterns_def bitmasks_def END_def BYTE_SIZE_def ntz_def upt_rec)

lemma patterns_facts:
  assumes "i < COUNTS_SIZE"
  shows "length (patterns i) \<le> 8" and "\<forall>p \<in> set (patterns i). ntz p < 8"
    and "sorted_wrt (<) (map ntz (patterns i))" and "0 \<notin> set (patterns i)"
proof -
  from assms have c: "i = 0 \<or> i = 1 \<or> i = 2 \<or> i = 3 \<or> i = 4 \<or> i = 5 \<or> i = 6"
    unfolding COUNTS_SIZE_def by (rule less_7_cases)
  have l: "length (map ntz (patterns i)) \<le> 8"
    using c ntz_patterns by auto
  then show "length (patterns i) \<le> 8" by simp
  have "\<forall>n \<in> set (map ntz (patterns i)). n < 8"
    using c ntz_patterns by auto
  then show "\<forall>p \<in> set (patterns i). ntz p < 8" by simp
  show "sorted_wrt (<) (map ntz (patterns i))"
    using c ntz_patterns by auto
  show "0 \<notin> set (patterns i)"
    using c by (auto simp: patterns_def bitmasks_def END_def BYTE_SIZE_def)
qed

lemma value_scan_row:
  assumes "i < COUNTS_SIZE" and "j < END" and "length bvs = 8"
  shows "value_scan bvs (bitmasks ! i) j [] = Inr (offsets bvs (patterns i) j @ [END])"
proof -
  from assms(1) obtain pad where "bitmasks ! i = patterns i @ END # pad"
    using bitmasks_rows by blast
  then show ?thesis
    using value_scan_sorted [OF patterns_sorted [OF assms(1)] assms(2), of "[]" bvs pad]
      patterns_facts(1,2) [OF assms(1)] assms(3)
    by simp
qed

lemma GENERATE_FLAGS_cases:
  "fl AND GENERATE_FLAGS \<noteq> 0 \<Longrightarrow> fl AND PRINT_FLAGS = 0 \<Longrightarrow>
   fl AND CALLBACK_PRIMES \<noteq> 0 \<or> fl AND CALLBACK_PRIMES_OOP \<noteq> 0"
  by (auto simp: and_eq_0_iff_bits bit_GENERATE_FLAGS bit_PRINT_FLAGS bit_CALLBACK_PRIMES
      bit_CALLBACK_PRIMES_OOP)

lemma generateType_of_less: "generateType_of fl < COUNTS_SIZE"
  using generateType_of_props(1) [of fl] by (cases "fl AND PRINT_FLAGS = 0")
    (simp_all add: generateType_of_def COUNTS_SIZE_def)

lemma init_primeBitValues_eq:
  assumes "length bvs = 8"
  shows "init_primeBitValues fl bvs =
     Inr (if fl AND GENERATE_FLAGS \<noteq> 0
          then Some (map (\<lambda>j. offsets bvs (patterns (generateType_of fl)) (of_nat j) @ [END])
                       [0..<256])
          else None)"
proof (cases "fl AND GENERATE_FLAGS \<noteq> 0")
  case True
  let ?g = "generateType_of fl"
  have g: "(if fl AND PRINT_FLAGS \<noteq> 0 then generateType_loop fl PRINT_PRIMES 0 else Some 0)
      = Some (of_nat ?g)"
    using generateType_loop_eq [of fl] by (simp add: generateType_of_def)
  have lt: "?g < COUNTS_SIZE" by (rule generateType_of_less)
  then have u: "unat (of_nat ?g :: u32) = ?g"
    by (simp add: unat_of_nat COUNTS_SIZE_def)
  have "mapE (\<lambda>j. value_scan bvs (bitmasks ! ?g) (of_nat j) []) [0..<256]
      = Inr (map (\<lambda>j. offsets bvs (patterns ?g) (of_nat j) @ [END]) [0..<256])"
    by (rule mapE_Inr) (simp add: value_scan_row [OF lt _ assms] of_nat_less_END)
  with True lt show ?thesis
    by (simp add: init_primeBitValues_def g u length_bitmasks unat_BYTE_SIZE)
next
  case False
  then show ?thesis by (simp add: init_primeBitValues_def)
qed

lemma bitValues_row_init:
  assumes "length bvs = 8" and "fl AND GENERATE_FLAGS \<noteq> 0"
    and "init_primeBitValues fl bvs = Inr bitVals"
  shows "bitValues_row bitVals byte
       = Inr (offsets bvs (patterns (generateType_of fl)) (ucast byte) @ [END])"
proof -
  have "unat byte < 256"
    using unsigned_less [of byte, where ?'a = nat] by simp
  moreover have "(of_nat (unat byte) :: u32) = ucast byte" by simp
  ultimately show ?thesis
    using assms by (auto simp: init_primeBitValues_eq bitValues_row_def)
qed

lemma sorted_wrt_filter_map:
  "sorted_wrt (<) (map f xs) \<Longrightarrow> sorted_wrt (<) (map f (filter P xs))"
  by (induction xs) auto

lemma offsets_ascending:
  assumes "i < COUNTS_SIZE" and "length bvs = 8" and "sorted_wrt (<) bvs"
  shows "sorted_wrt (<) (offsets bvs (patterns i) j)"
proof -
  let ?ps = "filter (\<lambda>b. j AND b = b) (patterns i)"
  have s: "sorted_wrt (<) (map ntz ?ps)"
    using patterns_facts(3) [OF assms(1)] by (rule sorted_wrt_filter_map)
  have b: "\<forall>n \<in> set (map ntz ?ps). n < length bvs"
    using patterns_facts(2) [OF assms(1)] assms(2) by auto
  have "sorted_wrt (<) (map ((!) bvs) ns)" if "sorted_wrt (<) ns" "\<forall>n \<in> set ns. n < length bvs"
    for ns
    using that assms(3) by (induction ns) (auto intro: sorted_wrt_nth_less)
  from this [OF s b] show ?thesis
    by (simp add: offsets_def comp_def)
qed

lemma offsets_zero: "i < COUNTS_SIZE \<Longrightarrow> offsets bvs (patterns i) 0 = []"
  using patterns_facts(4) [of i] by (auto simp: offsets_def filter_empty_conv)

lemma offsets_length: "i < COUNTS_SIZE \<Longrightarrow> length (offsets bvs (patterns i) j) \<le> 8"
  using patterns_facts(1) [of i]
    le_trans [OF length_filter_le [of "\<lambda>b. j AND b = b" "patterns i"]]
  by (simp add: offsets_def)

lemma offsets_subset: "i < COUNTS_SIZE \<Longrightarrow> length bvs = 8 \<Longrightarrow> set (offsets bvs (patterns i) j) \<subseteq> set bvs"
  using patterns_facts(2) [of i] by (auto simp: offsets_def)

text \<open>
  Claim C5. With a generation flag set and a residue-slot table of 8 strictly ascending
  offsets, the value-sequence table is built with 256 rows. The row of every byte value
  lists the reconstructed residue offsets of that byte for the active generation class (for
  each pattern of the class contained in the byte, in the order of the pattern list, the
  offset of the slot of the pattern's lowest set bit) followed by the sentinel END; the
  offsets are in strictly ascending order and among those of the residue-slot table, and the
  row has at most 9 cells in all. The row of byte value 0 is the sentinel alone.
\<close>

theorem value_rows_ascending_and_terminated:
  assumes "fl AND GENERATE_FLAGS \<noteq> 0" and "length bvs = 8" and "sorted_wrt (<) bvs"
  shows "\<exists>rows. init_primeBitValues fl bvs = Inr (Some rows) \<and> length rows = 256 \<and>
           (\<forall>byte. bitValues_row (Some rows) byte
                      = Inr (offsets bvs (patterns (generateType_of fl)) (ucast byte) @ [END]) \<and>
                    rows ! unat byte
                      = offsets bvs (patterns (generateType_of fl)) (ucast byte) @ [END] \<and>
                    sorted_wrt (<) (offsets bvs (patterns (generateType_of fl)) (ucast byte)) \<and>
                    length (offsets bvs (patterns (generateType_of fl)) (ucast byte) @ [END]) \<le> 9 \<and>
                    set (offsets bvs (patterns (generateType_of fl)) (ucast byte)) \<subseteq> set bvs) \<and>
           bitValues_row (Some rows) 0 = Inr [END]"
proof -
  let ?g = "generateType_of fl"
  have lt: "?g < COUNTS_SIZE" by (rule generateType_of_less)
  obtain rows where r: "init_primeBitValues fl bvs = Inr (Some rows)" and l: "length rows = 256"
    using assms(1,2) by (simp add: init_primeBitValues_eq)
  have row: "bitValues_row (Some rows) byte = Inr (offsets bvs (patterns ?g) (ucast byte) @ [END])"
    for byte
    using bitValues_row_init [OF assms(2,1) r] .
  have nth: "rows ! unat byte = offsets bvs (patterns ?g) (ucast byte) @ [END]" for byte :: u8
  proof -
    have "unat byte < 256"
      using unsigned_less [of byte, where ?'a = nat] by simp
    with row [of byte] l show ?thesis
      by (simp add: bitValues_row_def)
  qed
  have "bitValues_row (Some rows) 0 = Inr [END]"
    using row [of 0] offsets_zero [OF lt] by simp
  with r l row nth offsets_ascending [OF lt assms(2,3)] offsets_length [OF lt]
    offsets_subset [OF lt assms(2)]
  show ?thesis
    by (intro exI [of _ rows]) simp
qed

lemma emit_all_append:
  "emit_all body (xs @ ys) =
     (case emit_all body xs of
        Inl e \<Rightarrow> Inl e
      | Inr evs \<Rightarrow> (case emit_all body ys of Inl e \<Rightarrow> Inl e | Inr evs' \<Rightarrow> Inr (evs @ evs')))"
  by (induction xs) (auto split: sum.splits)

lemma row_loop_eq:
  "END \<in> set row \<Longrightarrow> row_loop body byteValue row
     = emit_all body (map (Pair byteValue) (row_entries row))"
  by (induction row) (auto simp: row_entries_def split: sum.splits)

lemma generate_loop_eq:
  assumes "length rows = 256" and "\<forall>row \<in> set rows. END \<in> set row"
    and "length sieve = unat sieveSize" and "i \<le> sieveSize"
  shows "generate_loop body (Some rows) sieve sieveSize i byteValue
       = emit_all body (reconstructed rows byteValue (drop (unat i) sieve))"
  using assms
proof (induction body "Some rows" sieve sieveSize i byteValue rule: generate_loop.induct)
  case (1 body sieve sieveSize i byteValue)
  show ?case
  proof (cases "i < sieveSize")
    case True
    then have lt: "unat i < length sieve"
      using "1.prems" by (simp add: word_less_nat_alt)
    have suc: "unat (i + 1) = Suc (unat i)"
      using True by (rule unat_plus1)
    have le: "i + 1 \<le> sieveSize"
      using True suc by (simp add: word_le_nat_alt word_less_nat_alt)
    let ?byte = "sieve ! unat i"
    have b: "unat ?byte < 256"
      using unsigned_less [of ?byte, where ?'a = nat] by simp
    then have row: "bitValues_row (Some rows) ?byte = Inr (rows ! unat ?byte)"
      using "1.prems"(1) by (simp add: bitValues_row_def)
    have e: "END \<in> set (rows ! unat ?byte)"
      using "1.prems"(1,2) b by simp
    have d: "drop (unat i) sieve = ?byte # drop (Suc (unat i)) sieve"
      using lt by (simp add: Cons_nth_drop_Suc)
    have ih: "generate_loop body (Some rows) sieve sieveSize (i + 1)
                (byteValue + ucast NUMBERS_PER_BYTE)
        = emit_all body (reconstructed rows (byteValue + ucast NUMBERS_PER_BYTE)
            (drop (unat (i + 1)) sieve))"
      if "row_loop body byteValue (rows ! unat ?byte) = Inr evs" for evs
      using "1.hyps" [OF True lt row that "1.prems"(1,2,3) le] .
    have n: "(ucast NUMBERS_PER_BYTE :: u64) = 30"
      by (simp add: NUMBERS_PER_BYTE_def)
    show ?thesis
    proof (cases "row_loop body byteValue (rows ! unat ?byte)")
      case (Inl err)
      with True lt row show ?thesis
        by (subst generate_loop.simps) (simp add: d emit_all_append row_loop_eq [OF e, symmetric])
    next
      case (Inr evs)
      with True lt row ih [OF Inr] show ?thesis
        by (subst generate_loop.simps)
          (simp add: d suc n emit_all_append row_loop_eq [OF e, symmetric])
    qed
  next
    case False
    with "1.prems" have "i = sieveSize" by simp
    with "1.prems" show ?thesis by (subst generate_loop.simps) simp
  qed
qed

lemma emit_all_total:
  assumes "\<And>runningValue entry. body runningValue entry = Inr [ev (runningValue + ucast entry)]"
  shows "emit_all body ps = Inr (map (\<lambda>(runningValue, entry). ev (runningValue + ucast entry)) ps)"
  by (induction ps) (auto simp: assms)

lemma generate_eq:
  assumes "primeBitValues f = Some rows" and "length rows = 256"
    and "\<forall>row \<in> set rows. END \<in> set row" and "length sieve = unat sieveSize"
  shows "generate f segmentLow sieve sieveSize =
     (case emit_all (generate_body (flags (primeSieve f))) (reconstructed rows segmentLow sieve) of
        Inl e \<Rightarrow> Inl e
      | Inr evs \<Rightarrow> Inr (with_events f evs))"
proof -
  have "generate f segmentLow sieve sieveSize =
     (case generate_loop (generate_body (flags (primeSieve f))) (primeBitValues f) sieve
             sieveSize 0 segmentLow of
        Inl e \<Rightarrow> Inl e
      | Inr evs \<Rightarrow> Inr (with_events f evs))"
    unfolding generate_def Let_def with_events_def generate_body_def ..
  also have "generate_loop (generate_body (flags (primeSieve f))) (primeBitValues f) sieve
             sieveSize 0 segmentLow
      = emit_all (generate_body (flags (primeSieve f))) (reconstructed rows segmentLow sieve)"
    using generate_loop_eq [OF assms(2,3,4), of 0] assms(1) by simp
  finally show ?thesis .
qed

text \<open>
  Claim C6. In the three plain-prime modes \<^verbatim>\<open>generate\<close> returns, and what it emits is, in
  order, the values \<open>runningValue + entry\<close> for the entries of the row of each byte, the
  running value starting at the segment's low value and advancing by 30 per byte: as
  callback calls, as bound-object callback calls, or as decimal lines. The witness is the
  scenario of the claim: segment \<^verbatim>\<open>[0x03]\<close>, slots 0 and 1 at 7 and 11, low value 0.
\<close>

theorem generate_emits_running_value_plus_entry:
  assumes "primeBitValues f = Some rows" and "length rows = 256"
    and "\<forall>row \<in> set rows. END \<in> set row" and "length sieve = unat sieveSize"
    and "flags (primeSieve f) AND (CALLBACK_PRIMES OR CALLBACK_PRIMES_OOP OR PRINT_PRIMES) \<noteq> 0"
  shows "generate f segmentLow sieve sieveSize =
     Inr (with_events f
       (map (if flags (primeSieve f) AND CALLBACK_PRIMES \<noteq> 0 then Callback
             else if flags (primeSieve f) AND CALLBACK_PRIMES_OOP \<noteq> 0 then CallbackOOP
             else (\<lambda>prime. Stdout (decimal (unat prime) @ [CHR 0x0A])))
          (reconstructed_values rows segmentLow sieve)))"
proof -
  let ?fl = "flags (primeSieve f)"
  have p: "?fl AND PRINT_PRIMES \<noteq> 0"
    if "?fl AND CALLBACK_PRIMES = 0" "?fl AND CALLBACK_PRIMES_OOP = 0"
    using assms(5) that by (simp add: bit.conj_disj_distrib)
  show ?thesis
    unfolding generate_eq [OF assms(1-4)] reconstructed_values_def generate_body_def
    using p
    by (auto simp: emit_all_total [of call_callback Callback]
        emit_all_total [of call_callbackOOP CallbackOOP]
        emit_all_total [of print_prime "\<lambda>prime. Stdout (decimal (unat prime) @ [CHR 0x0A])"]
        call_callback_def call_callbackOOP_def print_prime_def comp_def case_prod_unfold)
qed

lemma new_PrimeNumberFinder_total:
  "length bvs = 8 \<Longrightarrow> \<exists>f. new_PrimeNumberFinder ps isPOPCNTSupported bvs = Inr f"
  by (simp add: new_PrimeNumberFinder_def initLookupTables_def init_primeByteCounts_eq
      init_primeBitValues_eq Let_def)

lemma constructed_table:
  assumes "new_PrimeNumberFinder ps isPOPCNTSupported bvs = Inr f" and "length bvs = 8"
    and "flags (primeSieve f) AND GENERATE_FLAGS \<noteq> 0"
  shows "\<exists>rows. primeBitValues f = Some rows \<and> length rows = 256 \<and>
           (\<forall>row \<in> set rows. END \<in> set row) \<and>
           (\<forall>byte::u8. rows ! unat byte
              = offsets bvs (patterns (generateType_of (flags (primeSieve f)))) (ucast byte) @ [END])"
proof -
  let ?g = "generateType_of (flags (primeSieve f))"
  let ?rows = "map (\<lambda>j. offsets bvs (patterns ?g) (of_nat j) @ [END]) [0..<256]"
  have t: "primeBitValues f = Some ?rows"
    using new_PrimeNumberFinder_Inr(5) [OF assms(1)] assms(2,3)
    by (simp add: init_primeBitValues_eq)
  have "?rows ! unat byte = offsets bvs (patterns ?g) (ucast byte) @ [END]" for byte :: u8
  proof -
    have "unat byte < 256"
      using unsigned_less [of byte, where ?'a = nat] by simp
    moreover have "(of_nat (unat byte) :: u32) = ucast byte" by simp
    ultimately show ?thesis by (simp del: of_nat_unat)
  qed
  moreover have "\<forall>row \<in> set ?rows. END \<in> set row" by auto
  ultimately show ?thesis
    using t by (intro exI [of _ ?rows]) simp
qed

lemma chain_Some: "chain k v = Some vs \<Longrightarrow> length vs = Suc k \<and> hd vs = v"
  by (induction k arbitrary: v vs) (auto split: if_splits)

lemma chain_step:
  "chain k v = Some vs \<Longrightarrow> n < k \<Longrightarrow>
   unat (vs ! n) < length nextBitValue \<and> vs ! Suc n = nextBitValue ! unat (vs ! n)"
proof (induction k arbitrary: v vs n)
  case 0
  then show ?case by simp
next
  case (Suc k)
  from Suc.prems(1) obtain ws where
    ws: "unat v < length nextBitValue" "chain k (nextBitValue ! unat v) = Some ws" "vs = v # ws"
    by (auto split: if_splits)
  show ?case
  proof (cases n)
    case 0
    with ws chain_Some [OF ws(2)] show ?thesis
      by (cases ws) auto
  next
    case (Suc n')
    with Suc.prems(2) Suc.IH [OF ws(2), of n'] ws(3) show ?thesis by simp
  qed
qed

lemma comma_separated_last:
  "vs \<noteq> [] \<Longrightarrow>
   concat (map (\<lambda>v. g v @ '', '') (butlast vs)) @ g (last vs) = comma_separated (map g vs)"
  by (induction vs rule: induct_list012) auto

lemma ktuplet_loop_ladder:
  assumes "m + k < 32" and "\<forall>d<k. \<not> bit fl (m + d)" and "bit fl (m + k)"
  shows "ktuplet_loop fl byteValue (2 ^ m) v s =
     Some (case chain k v of
             None \<Rightarrow> Inl OutOfBounds
           | Some vs \<Rightarrow>
               Inr (s @ concat (map (\<lambda>v. decimal (unat (byteValue + ucast v)) @ '', '')
                                  (butlast vs)), last vs))"
  using assms
proof (induction k arbitrary: m v s)
  case 0
  then show ?case
    by (subst ktuplet_loop.simps) (simp add: single_bit_and)
next
  case (Suc k)
  have nb: "\<not> bit fl m" using Suc.prems(2) by force
  have ih: "ktuplet_loop fl byteValue (2 ^ Suc m) v' s' =
     Some (case chain k v' of
             None \<Rightarrow> Inl OutOfBounds
           | Some vs \<Rightarrow>
               Inr (s' @ concat (map (\<lambda>v. decimal (unat (byteValue + ucast v)) @ '', '')
                                   (butlast vs)), last vs))" for v' s'
    using Suc.prems by (intro Suc.IH) auto
  show ?case
  proof (cases "unat v < length nextBitValue")
    case True
    show ?thesis
    proof (cases "chain k (nextBitValue ! unat v)")
      case None
      with True nb Suc.prems(1) ih show ?thesis
        by (subst ktuplet_loop.simps) (simp add: single_bit_and mult.commute)
    next
      case (Some ws)
      then have "ws \<noteq> []" using chain_Some [OF Some] by auto
      with Some True nb Suc.prems(1) ih show ?thesis
        by (subst ktuplet_loop.simps) (simp add: single_bit_and mult.commute)
    qed
  next
    case False
    with nb Suc.prems(1) show ?thesis
      by (subst ktuplet_loop.simps) (simp add: single_bit_and)
  qed
qed

lemma print_ktuplet_eq:
  assumes "fl AND PRINT_FLAGS \<noteq> 0"
  shows "print_ktuplet fl byteValue bitValue =
     (case chain (generateType_of fl) bitValue of
        None \<Rightarrow> Inl OutOfBounds
      | Some members \<Rightarrow> Inr [Stdout (tuplet_line byteValue members)])"
proof -
  note p = generateType_of_props [OF assms]
  have "7 + generateType_of fl < 32"
    using p(1) by (simp add: COUNTS_SIZE_def)
  note l = ktuplet_loop_ladder [OF this p(3) p(2), of byteValue bitValue "''(''"]
  show ?thesis
  proof (cases "chain (generateType_of fl) bitValue")
    case None
    with l show ?thesis by (simp add: print_ktuplet_def PRINT_PRIMES_def)
  next
    case (Some vs)
    then have "vs \<noteq> []" using chain_Some [OF Some] by auto
    from comma_separated_last [OF this, of "\<lambda>v. decimal (unat (byteValue + ucast v))"]
    show ?thesis
      using l Some by (simp add: print_ktuplet_def PRINT_PRIMES_def tuplet_line_def)
  qed
qed

lemma chain_std_patterns:
  "list_all (\<lambda>p. chain 0 (bitValues_std ! ntz p) \<noteq> None) (patterns 0)"
  "list_all (\<lambda>p. chain 1 (bitValues_std ! ntz p) \<noteq> None) (patterns 1)"
  "list_all (\<lambda>p. chain 2 (bitValues_std ! ntz p) \<noteq> None) (patterns 2)"
  "list_all (\<lambda>p. chain 3 (bitValues_std ! ntz p) \<noteq> None) (patterns 3)"
  "list_all (\<lambda>p. chain 4 (bitValues_std ! ntz p) \<noteq> None) (patterns 4)"
  "list_all (\<lambda>p. chain 5 (bitValues_std ! ntz p) \<noteq> None) (patterns 5)"
  "list_all (\<lambda>p. chain 6 (bitValues_std ! ntz p) \<noteq> None) (patterns 6)"
  by code_simp+

lemma chain_std:
  assumes "g < COUNTS_SIZE" and "entry \<in> set (offsets bitValues_std (patterns g) j)"
  shows "\<exists>members. chain g entry = Some members"
proof -
  from assms(2) obtain p where p: "p \<in> set (patterns g)" "entry = bitValues_std ! ntz p"
    by (auto simp: offsets_def)
  from assms(1) have "g = 0 \<or> g = 1 \<or> g = 2 \<or> g = 3 \<or> g = 4 \<or> g = 5 \<or> g = 6"
    unfolding COUNTS_SIZE_def by (rule less_7_cases)
  then have "list_all (\<lambda>p. chain g (bitValues_std ! ntz p) \<noteq> None) (patterns g)"
    using chain_std_patterns by auto
  with p show ?thesis
    by (auto simp: list_all_iff)
qed

lemma reconstructed_entries:
  assumes "(runningValue, entry) \<in> set (reconstructed rows low segment)"
  shows "\<exists>byte::u8. entry \<in> set (row_entries (rows ! unat byte))"
  using assms
proof (induction segment arbitrary: low)
  case Nil
  then show ?case by simp
next
  case (Cons byte segment)
  then consider "entry \<in> set (row_entries (rows ! unat byte))"
    | "(runningValue, entry) \<in> set (reconstructed rows (low + 30) segment)"
    by auto
  then show ?case
  proof cases
    case 1
    then show ?thesis by blast
  next
    case 2
    then show ?thesis by (rule Cons.IH)
  qed
qed

lemma row_entries_offsets: "END \<notin> set offs \<Longrightarrow> row_entries (offs @ [END]) = offs"
  by (induction offs) (auto simp: row_entries_def)

lemma emit_all_ktuplets:
  assumes "fl AND PRINT_FLAGS \<noteq> 0"
    and "\<forall>(runningValue, entry) \<in> set ps. \<exists>members. chain (generateType_of fl) entry = Some members"
  shows "\<exists>evs. emit_all (print_ktuplet fl) ps = Inr evs \<and>
           list_all2 (\<lambda>(runningValue, entry) ev.
                        \<exists>members. chain (generateType_of fl) entry = Some members \<and>
                          ev = Stdout (tuplet_line runningValue members)) ps evs"
  using assms(2)
proof (induction ps)
  case Nil
  then show ?case by simp
next
  case (Cons p ps)
  obtain runningValue entry where p: "p = (runningValue, entry)" by (cases p)
  from Cons.prems p obtain members where m: "chain (generateType_of fl) entry = Some members"
    by auto
  from Cons obtain evs where "emit_all (print_ktuplet fl) ps = Inr evs"
    and "list_all2 (\<lambda>(runningValue, entry) ev.
                        \<exists>members. chain (generateType_of fl) entry = Some members \<and>
                          ev = Stdout (tuplet_line runningValue members)) ps evs"
    by auto
  moreover have "print_ktuplet fl runningValue entry
      = Inr [Stdout (tuplet_line runningValue members)]"
    using m by (simp add: print_ktuplet_eq [OF assms(1)])
  ultimately show ?case
    using m p by (intro exI [of _ "Stdout (tuplet_line runningValue members) # evs"]) simp
qed

lemma std_facts: "length bitValues_std = 8" "sorted_wrt (<) bitValues_std" "END \<notin> set bitValues_std"
  by (simp_all add: bitValues_std_def END_def BYTE_SIZE_def)

lemma std_table:
  assumes "new_PrimeNumberFinder ps isPOPCNTSupported bitValues_std = Inr f"
    and "flags (primeSieve f) AND GENERATE_FLAGS \<noteq> 0"
  shows "\<exists>rows. primeBitValues f = Some rows \<and> length rows = 256 \<and>
           (\<forall>row \<in> set rows. END \<in> set row) \<and>
           (\<forall>byte::u8. row_entries (rows ! unat byte)
              = offsets bitValues_std (patterns (generateType_of (flags (primeSieve f))))
                  (ucast byte))"
proof -
  let ?g = "generateType_of (flags (primeSieve f))"
  from constructed_table [OF assms(1) std_facts(1) assms(2)] obtain rows where
    r: "primeBitValues f = Some rows" "length rows = 256" "\<forall>row \<in> set rows. END \<in> set row"
    "\<forall>byte::u8. rows ! unat byte = offsets bitValues_std (patterns ?g) (ucast byte) @ [END]"
    by blast
  have "END \<notin> set (offsets bitValues_std (patterns ?g) j)" for j
    using offsets_subset [OF generateType_of_less std_facts(1), of "flags (primeSieve f)" j]
      std_facts(3)
    by auto
  then have "row_entries (rows ! unat byte) = offsets bitValues_std (patterns ?g) (ucast byte)"
    for byte :: u8
    using r(4) by (simp add: row_entries_offsets)
  with r show ?thesis by blast
qed

lemma PRINT_FLAGS_GENERATE: "fl AND PRINT_FLAGS \<noteq> 0 \<Longrightarrow> fl AND GENERATE_FLAGS \<noteq> 0"
  by (auto simp: and_eq_0_iff_bits bit_GENERATE_FLAGS bit_PRINT_FLAGS)

lemma generate_ktuplets_std:
  assumes "new_PrimeNumberFinder ps isPOPCNTSupported bitValues_std = Inr f"
    and "flags (primeSieve f) AND PRINT_FLAGS \<noteq> 0"
    and "length sieve = unat sieveSize"
  shows "\<exists>rows evs. primeBitValues f = Some rows \<and> length rows = 256 \<and>
           (\<forall>row \<in> set rows. END \<in> set row) \<and>
           emit_all (print_ktuplet (flags (primeSieve f))) (reconstructed rows segmentLow sieve)
             = Inr evs \<and>
           list_all2 (\<lambda>(runningValue, entry) ev.
                        \<exists>members. chain (generateType_of (flags (primeSieve f))) entry
                                     = Some members \<and>
                          ev = Stdout (tuplet_line runningValue members))
             (reconstructed rows segmentLow sieve) evs"
proof -
  let ?fl = "flags (primeSieve f)"
  from std_table [OF assms(1) PRINT_FLAGS_GENERATE [OF assms(2)]] obtain rows where
    r: "primeBitValues f = Some rows" "length rows = 256" "\<forall>row \<in> set rows. END \<in> set row"
    "\<forall>byte::u8. row_entries (rows ! unat byte)
        = offsets bitValues_std (patterns (generateType_of ?fl)) (ucast byte)"
    by blast
  have "\<forall>(runningValue, entry) \<in> set (reconstructed rows segmentLow sieve).
          \<exists>members. chain (generateType_of ?fl) entry = Some members"
  proof (clarify)
    fix runningValue entry
    assume "(runningValue, entry) \<in> set (reconstructed rows segmentLow sieve)"
    from reconstructed_entries [OF this] obtain byte :: u8
      where "entry \<in> set (row_entries (rows ! unat byte))" by blast
    with r(4) have "entry \<in> set (offsets bitValues_std (patterns (generateType_of ?fl)) (ucast byte))"
      by simp
    from chain_std [OF generateType_of_less this]
    show "\<exists>members. chain (generateType_of ?fl) entry = Some members" .
  qed
  from emit_all_ktuplets [OF assms(2) this] r show ?thesis
    by blast
qed

lemma and_or3_eq_0:
  "((fl::u32) AND (a OR b OR c) = 0) = (fl AND a = 0 \<and> fl AND b = 0 \<and> fl AND c = 0)"
  by (auto simp: and_eq_0_iff_bits bit_or_iff)

lemma bit_PRINT_PRIMES: "bit PRINT_PRIMES n = (n = 7)"
proof -
  have "bit (2 ^ 7 :: u32) n = (n = 7)"
    unfolding bit_exp_iff by (auto simp: possible_bit_word)
  moreover have "PRINT_PRIMES = 2 ^ 7"
    by (simp add: PRINT_PRIMES_def)
  ultimately show ?thesis
    by (simp only:)
qed

lemma generateType_of_tuplet:
  assumes "fl AND PRINT_FLAGS \<noteq> 0" and "fl AND PRINT_PRIMES = 0"
  shows "1 \<le> generateType_of fl"
proof (rule ccontr)
  assume "\<not> 1 \<le> generateType_of fl"
  then have "generateType_of fl = 0" by simp
  with generateType_of_props(2) [OF assms(1)] have "bit fl 7" by simp
  with assms(2) show False
    by (auto simp: and_eq_0_iff_bits bit_PRINT_PRIMES)
qed

text \<open>
  Claim C7. In tuplet text mode (a printing flag above \<^verbatim>\<open>PRINT_PRIMES\<close> and none of the three
  plain-prime flags), for the class of index \<open>g\<close>, that is of cardinality \<open>g + 1\<close>,
  \<^verbatim>\<open>generate\<close> returns and writes one line per table row entry: the entry is the first
  member, the other \<open>g\<close> members come from \<open>g\<close> successive lookups in \<^verbatim>\<open>nextBitValue_\<close>, and
  the line is \<^verbatim>\<open>(v1, ..., vN)\<close> and a line break. The witness is the scenario of the claim:
  segment \<^verbatim>\<open>[0x06]\<close> with twin printing writes \<^verbatim>\<open>(11, 13)\<close> and a line break.
\<close>

theorem tuplet_text_emission:
  assumes "new_PrimeNumberFinder ps isPOPCNTSupported bitValues_std = Inr f"
    and "flags (primeSieve f) AND PRINT_FLAGS \<noteq> 0"
    and "flags (primeSieve f) AND (CALLBACK_PRIMES OR CALLBACK_PRIMES_OOP OR PRINT_PRIMES) = 0"
    and "length sieve = unat sieveSize"
  shows "\<exists>rows evs.
           primeBitValues f = Some rows \<and>
           generate f segmentLow sieve sieveSize = Inr (with_events f evs) \<and>
           1 \<le> generateType_of (flags (primeSieve f)) \<and>
           generateType_of (flags (primeSieve f)) < COUNTS_SIZE \<and>
           list_all2 (\<lambda>(runningValue, entry) ev.
                        \<exists>members. chain (generateType_of (flags (primeSieve f))) entry
                                     = Some members \<and>
                          length members = generateType_of (flags (primeSieve f)) + 1 \<and>
                          hd members = entry \<and>
                          ev = Stdout (tuplet_line runningValue members))
             (reconstructed rows segmentLow sieve) evs"
proof -
  let ?fl = "flags (primeSieve f)"
  let ?g = "generateType_of ?fl"
  from assms(3) have m: "?fl AND CALLBACK_PRIMES = 0" "?fl AND CALLBACK_PRIMES_OOP = 0"
    "?fl AND PRINT_PRIMES = 0"
    by (simp_all add: and_or3_eq_0)
  then have body: "generate_body ?fl = print_ktuplet ?fl"
    by (simp add: generate_body_def)
  from generate_ktuplets_std [OF assms(1,2,4), of segmentLow] obtain rows evs where
    r: "primeBitValues f = Some rows" "length rows = 256" "\<forall>row \<in> set rows. END \<in> set row"
    and e: "emit_all (print_ktuplet ?fl) (reconstructed rows segmentLow sieve) = Inr evs"
    and l: "list_all2 (\<lambda>(runningValue, entry) ev.
                        \<exists>members. chain ?g entry = Some members \<and>
                          ev = Stdout (tuplet_line runningValue members))
             (reconstructed rows segmentLow sieve) evs"
    by blast
  have "generate f segmentLow sieve sieveSize = Inr (with_events f evs)"
    using generate_eq [OF r assms(4), of segmentLow] e by (simp add: body)
  moreover have "list_all2 (\<lambda>(runningValue, entry) ev.
                        \<exists>members. chain ?g entry = Some members \<and>
                          length members = ?g + 1 \<and> hd members = entry \<and>
                          ev = Stdout (tuplet_line runningValue members))
             (reconstructed rows segmentLow sieve) evs"
    using l by (rule list_all2_mono) (auto dest: chain_Some)
  ultimately show ?thesis
    using r(1) generateType_of_tuplet [OF assms(2) m(3)] generateType_of_less [of ?fl]
    by blast
qed

lemma example_flags:
  "new_PrimeNumberFinder (example_PrimeSieve fl) False bvs = Inr f \<Longrightarrow> flags (primeSieve f) = fl"
  using new_PrimeNumberFinder_Inr(1) [of "example_PrimeSieve fl" False bvs f]
  by (simp add: example_PrimeSieve_def)

theorem tuplet_text_emission_witness:
  "\<exists>f. new_PrimeNumberFinder (example_PrimeSieve (push_bit 1 PRINT_PRIMES)) False bitValues_std
          = Inr f \<and>
        generate f 0 [0x06] 1 = Inr (with_events f [Stdout (''(11, 13)'' @ [CHR 0x0A])])"
proof -
  let ?fl = "push_bit 1 PRINT_PRIMES"
  obtain f where f: "new_PrimeNumberFinder (example_PrimeSieve ?fl) False bitValues_std = Inr f"
    using new_PrimeNumberFinder_total [OF std_facts(1)] by blast
  have fl: "flags (primeSieve f) = ?fl"
    using f by (rule example_flags)
  have h2: "flags (primeSieve f) AND PRINT_FLAGS \<noteq> 0"
    by (simp add: fl PRINT_PRIMES_def PRINT_FLAGS_def)
  have h3: "flags (primeSieve f) AND (CALLBACK_PRIMES OR CALLBACK_PRIMES_OOP OR PRINT_PRIMES) = 0"
    by (simp add: fl PRINT_PRIMES_def CALLBACK_PRIMES_def CALLBACK_PRIMES_OOP_def)
  have h4: "length [0x06 :: u8] = unat (1::u32)" by simp
  have g: "generateType_of (flags (primeSieve f)) = 1"
    by (simp add: fl generateType_of_def PRINT_PRIMES_def PRINT_FLAGS_def COUNTS_SIZE_def upt_rec)
  from std_table [OF f PRINT_FLAGS_GENERATE [OF h2]] obtain rows0 where
    t: "primeBitValues f = Some rows0"
    "\<forall>byte::u8. row_entries (rows0 ! unat byte)
        = offsets bitValues_std (patterns (generateType_of (flags (primeSieve f)))) (ucast byte)"
    by blast
  have "row_entries (rows0 ! unat (0x06 :: u8)) = [11]"
    unfolding t(2) [rule_format] g
    by (simp add: offsets_def patterns_def bitmasks_def END_def BYTE_SIZE_def ntz_def upt_rec
        bitValues_std_def)
  then have rc: "reconstructed rows0 0 [0x06] = [(0, 11)]"
    by simp
  have line: "tuplet_line 0 [11, 13] = ''(11, 13)'' @ [CHR 0x0A]"
    by (simp add: tuplet_line_def decimal.simps digit_char_def)
  from tuplet_text_emission [OF f h2 h3 h4, of 0] obtain rows evs where
    r: "primeBitValues f = Some rows"
    "generate f 0 [0x06] 1 = Inr (with_events f evs)"
    "list_all2 (\<lambda>(runningValue, entry) ev.
                        \<exists>members. chain (generateType_of (flags (primeSieve f))) entry
                                     = Some members \<and>
                          length members = generateType_of (flags (primeSieve f)) + 1 \<and>
                          hd members = entry \<and>
                          ev = Stdout (tuplet_line runningValue members))
             (reconstructed rows 0 [0x06]) evs"
    by blast
  from r(1) t(1) have "rows = rows0" by simp
  with r(3) rc have "evs = [Stdout (tuplet_line 0 [11, 13])]"
    by (auto simp: g list_all2_Cons1 nextBitValue_def)
  with r(2) line f show ?thesis by auto
qed

theorem value_rows_ascending_and_terminated_witness:
  "PRINT_PRIMES AND GENERATE_FLAGS \<noteq> 0 \<and> length bitValues_std = 8 \<and>
   sorted_wrt (<) bitValues_std \<and>
   (\<exists>rows. init_primeBitValues PRINT_PRIMES bitValues_std = Inr (Some rows) \<and>
      length rows = 256 \<and> bitValues_row (Some rows) 0 = Inr [END] \<and>
      bitValues_row (Some rows) 0xFF = Inr [7, 11, 13, 17, 19, 23, 29, 31, END] \<and>
      bitValues_row (Some rows) 0x03 = Inr [7, 11, END] \<and>
      bitValues_row (Some rows) 0x80 = Inr [31, END])"
proof -
  have h1: "PRINT_PRIMES AND GENERATE_FLAGS \<noteq> 0"
    by (simp add: PRINT_PRIMES_def GENERATE_FLAGS_def PRINT_FLAGS_def CALLBACK_PRIMES_def
        CALLBACK_PRIMES_OOP_def)
  have o: "offsets bitValues_std (patterns (generateType_of PRINT_PRIMES)) (ucast (0xFF::u8))
             = [7, 11, 13, 17, 19, 23, 29, 31]"
    "offsets bitValues_std (patterns (generateType_of PRINT_PRIMES)) (ucast (0x03::u8)) = [7, 11]"
    "offsets bitValues_std (patterns (generateType_of PRINT_PRIMES)) (ucast (0x80::u8)) = [31]"
    by code_simp+
  from value_rows_ascending_and_terminated [OF h1 std_facts(1,2)] obtain rows where
    r: "init_primeBitValues PRINT_PRIMES bitValues_std = Inr (Some rows)" "length rows = 256"
    "\<forall>byte. bitValues_row (Some rows) byte
        = Inr (offsets bitValues_std (patterns (generateType_of PRINT_PRIMES)) (ucast byte) @ [END])"
    "bitValues_row (Some rows) 0 = Inr [END]"
    by blast
  from r(3) [rule_format, of "0xFF"] r(3) [rule_format, of "0x03"] r(3) [rule_format, of "0x80"] o
  have "bitValues_row (Some rows) 0xFF = Inr [7, 11, 13, 17, 19, 23, 29, 31, END]"
    "bitValues_row (Some rows) 0x03 = Inr [7, 11, END]"
    "bitValues_row (Some rows) 0x80 = Inr [31, END]"
    by simp_all
  with r(1,2,4) h1 std_facts(1,2) show ?thesis by blast
qed

lemma scenario_row_0x03:
  assumes "new_PrimeNumberFinder (example_PrimeSieve fl) False bitValues_std = Inr f"
    and "fl AND GENERATE_FLAGS \<noteq> 0" and "generateType_of fl = 0"
  shows "\<exists>rows. primeBitValues f = Some rows \<and> length rows = 256 \<and>
           (\<forall>row \<in> set rows. END \<in> set row) \<and> reconstructed_values rows 0 [0x03] = [7, 11]"
proof -
  have fl: "flags (primeSieve f) = fl"
    using assms(1) by (rule example_flags)
  from std_table [OF assms(1)] assms(2) fl obtain rows where
    r: "primeBitValues f = Some rows" "length rows = 256" "\<forall>row \<in> set rows. END \<in> set row"
    and t: "\<forall>byte::u8. row_entries (rows ! unat byte)
        = offsets bitValues_std (patterns (generateType_of (flags (primeSieve f)))) (ucast byte)"
    by auto
  have "row_entries (rows ! unat (0x03 :: u8)) = [7, 11]"
    unfolding t [rule_format] fl assms(3)
    by (simp add: offsets_def patterns_def bitmasks_def END_def BYTE_SIZE_def ntz_def upt_rec
        bitValues_std_def)
  then have "reconstructed_values rows 0 [0x03] = [7, 11]"
    by (simp add: reconstructed_values_def)
  with r show ?thesis by blast
qed

theorem generate_emits_running_value_plus_entry_witness:
  "(\<exists>f. new_PrimeNumberFinder (example_PrimeSieve PRINT_PRIMES) False bitValues_std = Inr f \<and>
         generate f 0 [0x03] 1
           = Inr (with_events f [Stdout (''7'' @ [CHR 0x0A]), Stdout (''11'' @ [CHR 0x0A])])) \<and>
   (\<exists>f. new_PrimeNumberFinder (example_PrimeSieve CALLBACK_PRIMES) False bitValues_std = Inr f \<and>
         generate f 0 [0x03] 1 = Inr (with_events f [Callback 7, Callback 11]))"
proof -
  have len: "length [0x03 :: u8] = unat (1::u32)" by simp
  have d: "decimal 7 = ''7''" "decimal 11 = ''11''"
    by (simp_all add: decimal.simps digit_char_def)
  obtain f where f: "new_PrimeNumberFinder (example_PrimeSieve PRINT_PRIMES) False bitValues_std = Inr f"
    using new_PrimeNumberFinder_total [OF std_facts(1)] by blast
  have fl: "flags (primeSieve f) = PRINT_PRIMES"
    using f by (rule example_flags)
  have g1: "PRINT_PRIMES AND GENERATE_FLAGS \<noteq> 0"
    by (simp add: PRINT_PRIMES_def GENERATE_FLAGS_def PRINT_FLAGS_def CALLBACK_PRIMES_def
        CALLBACK_PRIMES_OOP_def)
  have g2: "generateType_of PRINT_PRIMES = 0"
    by (simp add: generateType_of_def PRINT_PRIMES_def PRINT_FLAGS_def COUNTS_SIZE_def upt_rec)
  from scenario_row_0x03 [OF f g1 g2] obtain rows where
    r: "primeBitValues f = Some rows" "length rows = 256" "\<forall>row \<in> set rows. END \<in> set row"
    "reconstructed_values rows 0 [0x03] = [7, 11]"
    by blast
  have m: "flags (primeSieve f) AND (CALLBACK_PRIMES OR CALLBACK_PRIMES_OOP OR PRINT_PRIMES) \<noteq> 0"
    "flags (primeSieve f) AND CALLBACK_PRIMES = 0" "flags (primeSieve f) AND CALLBACK_PRIMES_OOP = 0"
    by (simp_all add: fl PRINT_PRIMES_def CALLBACK_PRIMES_def CALLBACK_PRIMES_OOP_def)
  have a: "generate f 0 [0x03] 1
      = Inr (with_events f [Stdout (''7'' @ [CHR 0x0A]), Stdout (''11'' @ [CHR 0x0A])])"
    using generate_emits_running_value_plus_entry [OF r(1,2,3) len m(1), of 0] m(2,3) r(4) d
    by simp
  obtain f' where
    f': "new_PrimeNumberFinder (example_PrimeSieve CALLBACK_PRIMES) False bitValues_std = Inr f'"
    using new_PrimeNumberFinder_total [OF std_facts(1)] by blast
  have fl': "flags (primeSieve f') = CALLBACK_PRIMES"
    using f' by (rule example_flags)
  have g1': "CALLBACK_PRIMES AND GENERATE_FLAGS \<noteq> 0"
    by (simp add: GENERATE_FLAGS_def PRINT_FLAGS_def CALLBACK_PRIMES_def CALLBACK_PRIMES_OOP_def)
  have g2': "generateType_of CALLBACK_PRIMES = 0"
    by (simp add: generateType_of_def CALLBACK_PRIMES_def PRINT_FLAGS_def)
  from scenario_row_0x03 [OF f' g1' g2'] obtain rows' where
    r': "primeBitValues f' = Some rows'" "length rows' = 256" "\<forall>row \<in> set rows'. END \<in> set row"
    "reconstructed_values rows' 0 [0x03] = [7, 11]"
    by blast
  have m': "flags (primeSieve f') AND (CALLBACK_PRIMES OR CALLBACK_PRIMES_OOP OR PRINT_PRIMES) \<noteq> 0"
    "flags (primeSieve f') AND CALLBACK_PRIMES \<noteq> 0"
    by (simp_all add: fl' PRINT_PRIMES_def CALLBACK_PRIMES_def CALLBACK_PRIMES_OOP_def)
  have b: "generate f' 0 [0x03] 1 = Inr (with_events f' [Callback 7, Callback 11])"
    using generate_emits_running_value_plus_entry [OF r'(1,2,3) len m'(1), of 0] m'(2) r'(4)
    by simp
  from a b f f' show ?thesis by blast
qed

section \<open>Emission modes and the dispatcher\<close>

lemma event_of_mode_exclusive:
  "event_of_mode m ev \<Longrightarrow> event_of_mode m' ev \<Longrightarrow> m = m'"
  by (cases m; cases m'; cases ev) (auto simp: is_digit_def)

lemma decimal_head: "decimal n \<noteq> [] \<and> is_digit (hd (decimal n))"
proof (induction n rule: decimal.induct)
  case (1 n)
  show ?case
  proof (cases "n < 10")
    case True
    then have "''0123456789'' ! n \<in> set ''0123456789''"
      by (intro nth_mem) simp
    then have "is_digit (digit_char n)"
      by (simp only: is_digit_def digit_char_def)
    with True show ?thesis
      by (subst (1 2) decimal.simps) simp
  next
    case False
    with 1 show ?thesis
      by (subst (1 2) decimal.simps) simp
  qed
qed

lemma std_table_init:
  assumes "init_primeBitValues (flags (primeSieve f)) bitValues_std = Inr (primeBitValues f)"
    and "flags (primeSieve f) AND GENERATE_FLAGS \<noteq> 0"
  shows "\<exists>rows. primeBitValues f = Some rows \<and> length rows = 256 \<and>
           (\<forall>row \<in> set rows. END \<in> set row) \<and>
           (\<forall>byte::u8. row_entries (rows ! unat byte)
              = offsets bitValues_std (patterns (generateType_of (flags (primeSieve f))))
                  (ucast byte))"
proof -
  let ?g = "generateType_of (flags (primeSieve f))"
  let ?rows = "map (\<lambda>j. offsets bitValues_std (patterns ?g) (of_nat j) @ [END]) [0..<256]"
  have t: "primeBitValues f = Some ?rows"
    using assms by (simp add: init_primeBitValues_eq std_facts(1))
  have e: "END \<notin> set (offsets bitValues_std (patterns ?g) j)" for j
    using offsets_subset [OF generateType_of_less std_facts(1), of "flags (primeSieve f)" j]
      std_facts(3)
    by auto
  have "row_entries (?rows ! unat byte) = offsets bitValues_std (patterns ?g) (ucast byte)"
    for byte :: u8
  proof -
    have "unat byte < 256"
      using unsigned_less [of byte, where ?'a = nat] by simp
    moreover have "(of_nat (unat byte) :: u32) = ucast byte" by simp
    ultimately show ?thesis
      using e by (simp add: row_entries_offsets del: of_nat_unat)
  qed
  moreover have "\<forall>row \<in> set ?rows. END \<in> set row" by auto
  ultimately show ?thesis
    using t by (intro exI [of _ ?rows]) simp
qed

lemma decimal_append_head: "is_digit (hd (decimal n @ s))"
  using decimal_head [of n] by (simp add: hd_append)

lemma prime_line_head: "event_of_mode PrimeText (Stdout (decimal n @ [CHR 0x0A]))"
  using decimal_head [of n] by simp

lemma tuplet_line_head:
  "tuplet_line runningValue members \<noteq> []" "hd (tuplet_line runningValue members) = CHR ''(''"
  by (simp_all add: tuplet_line_def)

lemma list_all2_right:
  "list_all2 P xs ys \<Longrightarrow> (\<And>x y. P x y \<Longrightarrow> Q y) \<Longrightarrow> \<forall>y \<in> set ys. Q y"
  by (induction rule: list_all2_induct) auto

lemma generate_returns_in_mode:
  assumes "init_primeBitValues (flags (primeSieve f)) bitValues_std = Inr (primeBitValues f)"
    and "flags (primeSieve f) AND GENERATE_FLAGS \<noteq> 0"
    and "length sieve = unat sieveSize"
  shows "\<exists>rows evs. primeBitValues f = Some rows \<and>
           generate f segmentLow sieve sieveSize = Inr (with_events f evs) \<and>
           length evs = length (reconstructed rows segmentLow sieve) \<and>
           (\<forall>ev \<in> set evs. event_of_mode (emission_mode_of (flags (primeSieve f))) ev)"
proof -
  let ?fl = "flags (primeSieve f)"
  let ?g = "generateType_of ?fl"
  from std_table_init [OF assms(1,2)] obtain rows where
    r: "primeBitValues f = Some rows" "length rows = 256" "\<forall>row \<in> set rows. END \<in> set row"
    and t: "\<forall>byte::u8. row_entries (rows ! unat byte)
        = offsets bitValues_std (patterns ?g) (ucast byte)"
    by blast
  note g = generate_eq [OF r assms(3), of segmentLow]
  let ?ps = "reconstructed rows segmentLow sieve"
  consider (a) "?fl AND CALLBACK_PRIMES \<noteq> 0"
    | (b) "?fl AND CALLBACK_PRIMES = 0" "?fl AND CALLBACK_PRIMES_OOP \<noteq> 0"
    | (c) "?fl AND CALLBACK_PRIMES = 0" "?fl AND CALLBACK_PRIMES_OOP = 0" "?fl AND PRINT_PRIMES \<noteq> 0"
    | (d) "?fl AND CALLBACK_PRIMES = 0" "?fl AND CALLBACK_PRIMES_OOP = 0" "?fl AND PRINT_PRIMES = 0"
    by blast
  then show ?thesis
  proof cases
    case a
    then have "generate f segmentLow sieve sieveSize
        = Inr (with_events f (map (\<lambda>(runningValue, entry). Callback (runningValue + ucast entry)) ?ps))"
      using g by (simp add: generate_body_def emit_all_total [of call_callback Callback]
          call_callback_def)
    with a r(1) show ?thesis
      by (intro exI [of _ rows] exI [of _ "map (\<lambda>(runningValue, entry).
            Callback (runningValue + ucast entry)) ?ps"])
        (auto simp: emission_mode_of_def)
  next
    case b
    then have "generate f segmentLow sieve sieveSize
        = Inr (with_events f (map (\<lambda>(runningValue, entry). CallbackOOP (runningValue + ucast entry)) ?ps))"
      using g by (simp add: generate_body_def emit_all_total [of call_callbackOOP CallbackOOP]
          call_callbackOOP_def)
    with b r(1) show ?thesis
      by (intro exI [of _ rows] exI [of _ "map (\<lambda>(runningValue, entry).
            CallbackOOP (runningValue + ucast entry)) ?ps"])
        (auto simp: emission_mode_of_def)
  next
    case c
    let ?line = "\<lambda>prime::u64. Stdout (decimal (unat prime) @ [CHR 0x0A])"
    from c have "generate f segmentLow sieve sieveSize
        = Inr (with_events f (map (\<lambda>(runningValue, entry). ?line (runningValue + ucast entry)) ?ps))"
      using g by (simp add: generate_body_def emit_all_total [of print_prime ?line]
          print_prime_def)
    with c r(1) show ?thesis
      by (intro exI [of _ rows] exI [of _ "map (\<lambda>(runningValue, entry).
            ?line (runningValue + ucast entry)) ?ps"])
        (auto simp: emission_mode_of_def decimal_append_head)
  next
    case d
    then have pf: "?fl AND PRINT_FLAGS \<noteq> 0"
      using GENERATE_FLAGS_cases [OF assms(2)] by auto
    have "\<forall>(runningValue, entry) \<in> set ?ps. \<exists>members. chain ?g entry = Some members"
    proof (clarify)
      fix runningValue entry
      assume "(runningValue, entry) \<in> set ?ps"
      from reconstructed_entries [OF this] obtain byte :: u8
        where "entry \<in> set (row_entries (rows ! unat byte))" by blast
      with t have "entry \<in> set (offsets bitValues_std (patterns ?g) (ucast byte))"
        by simp
      from chain_std [OF generateType_of_less this]
      show "\<exists>members. chain ?g entry = Some members" .
    qed
    from emit_all_ktuplets [OF pf this] obtain evs where
      e: "emit_all (print_ktuplet ?fl) ?ps = Inr evs"
      and l: "list_all2 (\<lambda>(runningValue, entry) ev.
                        \<exists>members. chain ?g entry = Some members \<and>
                          ev = Stdout (tuplet_line runningValue members)) ?ps evs"
      by blast
    from d e have "generate f segmentLow sieve sieveSize = Inr (with_events f evs)"
      using g by (simp add: generate_body_def)
    moreover have "length evs = length ?ps"
      using l by (simp add: list_all2_lengthD)
    moreover have "\<forall>ev \<in> set evs. event_of_mode TupletText ev"
      using l by (rule list_all2_right) (auto simp: tuplet_line_head)
    ultimately show ?thesis
      using d r(1) by (auto simp: emission_mode_of_def)
  qed
qed

lemma ktuplet_loop_prefix_aux:
  "ktuplet_loop fl byteValue j v s = Some y \<Longrightarrow> \<forall>s' v'. y = Inr (s', v') \<longrightarrow> (\<exists>t. s' = s @ t)"
proof (rule ktuplet_loop.raw_induct
    [where P = "\<lambda>fl byteValue j v s y. \<forall>s' v'. y = Inr (s', v') \<longrightarrow> (\<exists>t. s' = s @ t)"])
  fix loop :: "u32 \<Rightarrow> u64 \<Rightarrow> u32 \<Rightarrow> u32 \<Rightarrow> string \<Rightarrow> (error + string \<times> u32) option"
    and fl byteValue j v ktuplet y
  assume ih: "\<And>fl byteValue j v ktuplet y. loop fl byteValue j v ktuplet = Some y \<Longrightarrow>
      \<forall>s' v'. y = Inr (s', v') \<longrightarrow> (\<exists>t. s' = ktuplet @ t)"
    and body: "(if j AND fl = 0
      then if unat v < length nextBitValue
           then loop fl byteValue (push_bit 1 j) (nextBitValue ! unat v)
                 (ktuplet @ decimal (unat (byteValue + ucast v)) @ '', '')
           else Some (Inl OutOfBounds)
      else Some (Inr (ktuplet, v))) = Some y"
  show "\<forall>s' v'. y = Inr (s', v') \<longrightarrow> (\<exists>t. s' = ktuplet @ t)"
  proof (cases "j AND fl = 0 \<and> unat v < length nextBitValue")
    case True
    with body have "loop fl byteValue (push_bit 1 j) (nextBitValue ! unat v)
                 (ktuplet @ decimal (unat (byteValue + ucast v)) @ '', '') = Some y"
      by simp
    from ih [OF this] show ?thesis by auto
  next
    case False
    with body show ?thesis by (auto split: if_splits)
  qed
qed

lemma ktuplet_loop_prefix:
  "ktuplet_loop fl byteValue j v s = Some (Inr (s', v')) \<Longrightarrow> \<exists>t. s' = s @ t"
  using ktuplet_loop_prefix_aux by blast

lemma print_ktuplet_in_mode:
  "print_ktuplet fl byteValue bitValue = Inr evs \<Longrightarrow> \<forall>ev \<in> set evs. event_of_mode TupletText ev"
  by (auto simp: print_ktuplet_def split: option.splits sum.splits dest!: ktuplet_loop_prefix)

lemma generate_body_in_mode:
  "generate_body fl byteValue bitValue = Inr evs \<Longrightarrow>
   \<forall>ev \<in> set evs. event_of_mode (emission_mode_of fl) ev"
  using print_ktuplet_in_mode [of fl byteValue bitValue evs]
  by (auto simp: generate_body_def emission_mode_of_def call_callback_def call_callbackOOP_def
      print_prime_def decimal_append_head split: if_splits)

lemma row_loop_events:
  assumes "\<And>byteValue bitValue evs. body byteValue bitValue = Inr evs \<Longrightarrow> \<forall>ev \<in> set evs. Q ev"
  shows "row_loop body byteValue row = Inr evs \<Longrightarrow> \<forall>ev \<in> set evs. Q ev"
proof (induction row arbitrary: evs)
  case Nil
  then show ?case by simp
next
  case (Cons bitValue row)
  show ?case
  proof (cases "bitValue = END")
    case True
    with Cons.prems show ?thesis by simp
  next
    case False
    with Cons.prems obtain e1 e2 where "body byteValue bitValue = Inr e1"
      "row_loop body byteValue row = Inr e2" "evs = e1 @ e2"
      by (auto split: sum.splits)
    with assms Cons.IH show ?thesis by auto
  qed
qed

lemma generate_loop_events:
  assumes "\<And>byteValue bitValue evs. body byteValue bitValue = Inr evs \<Longrightarrow> \<forall>ev \<in> set evs. Q ev"
  shows "generate_loop body bitVals sieve sieveSize i byteValue = Inr evs \<Longrightarrow> \<forall>ev \<in> set evs. Q ev"
  using assms
proof (induction body bitVals sieve sieveSize i byteValue arbitrary: evs
    rule: generate_loop.induct)
  case (1 body bitVals sieve sieveSize i byteValue)
  show ?case
  proof (cases "i < sieveSize")
    case True
    with "1.prems"(1) obtain row e1 e2 where
      s: "unat i < length sieve" "bitValues_row bitVals (sieve ! unat i) = Inr row"
      "row_loop body byteValue row = Inr e1"
      "generate_loop body bitVals sieve sieveSize (i + 1) (byteValue + ucast NUMBERS_PER_BYTE)
         = Inr e2"
      "evs = e1 @ e2"
      by (subst (asm) generate_loop.simps) (auto split: if_splits sum.splits)
    have "\<forall>ev \<in> set e1. Q ev"
      using row_loop_events [of body Q, OF "1.prems"(2) s(3)] .
    moreover have "\<forall>ev \<in> set e2. Q ev"
      using "1.IH" [OF True s(1,2,3,4) "1.prems"(2)] .
    ultimately show ?thesis
      using s(5) by auto
  next
    case False
    with "1.prems"(1) show ?thesis
      by (subst (asm) generate_loop.simps) simp
  qed
qed

lemma generate_events_in_mode:
  assumes "generate f segmentLow sieve sieveSize = Inr f'"
  shows "\<exists>evs. f' = with_events f evs \<and>
           (\<forall>ev \<in> set evs. event_of_mode (emission_mode_of (flags (primeSieve f))) ev)"
proof -
  have "generate f segmentLow sieve sieveSize =
     (case generate_loop (generate_body (flags (primeSieve f))) (primeBitValues f) sieve
             sieveSize 0 segmentLow of
        Inl e \<Rightarrow> Inl e
      | Inr evs \<Rightarrow> Inr (with_events f evs))"
    unfolding generate_def Let_def with_events_def generate_body_def ..
  with assms obtain evs where
    g: "generate_loop (generate_body (flags (primeSieve f))) (primeBitValues f) sieve
             sieveSize 0 segmentLow = Inr evs"
    and f': "f' = with_events f evs"
    by (auto split: sum.splits)
  have "\<forall>ev \<in> set evs. event_of_mode (emission_mode_of (flags (primeSieve f))) ev"
  proof (rule generate_loop_events [OF _ g])
    fix byteValue bitValue evs
    assume "generate_body (flags (primeSieve f)) byteValue bitValue = Inr evs"
    then show "\<forall>ev \<in> set evs. event_of_mode (emission_mode_of (flags (primeSieve f))) ev"
      by (rule generate_body_in_mode)
  qed
  with f' show ?thesis by blast
qed

text \<open>
  Claim C10. Whenever \<^verbatim>\<open>generate\<close> returns, everything it added to the trace belongs to the
  one mode selected by the precedence (function callback, bound-object callback, plain-prime
  text, tuplet text as the fallback), whatever other generation flags are set, and to no
  other mode. With the tables the constructor builds, generation enabled and a segment of
  the stated length, it does return, with one effect per reconstructed table entry.
\<close>

theorem one_emission_mode_by_precedence:
  "(\<forall>f'. generate f segmentLow sieve sieveSize = Inr f' \<longrightarrow>
      (\<exists>evs. f' = with_events f evs \<and>
         (\<forall>ev \<in> set evs. event_of_mode (emission_mode_of (flags (primeSieve f))) ev) \<and>
         (\<forall>m ev. ev \<in> set evs \<and> event_of_mode m ev
            \<longrightarrow> m = emission_mode_of (flags (primeSieve f))))) \<and>
   (init_primeBitValues (flags (primeSieve f)) bitValues_std = Inr (primeBitValues f) \<and>
    flags (primeSieve f) AND GENERATE_FLAGS \<noteq> 0 \<and> length sieve = unat sieveSize \<longrightarrow>
      (\<exists>rows evs. primeBitValues f = Some rows \<and>
         generate f segmentLow sieve sieveSize = Inr (with_events f evs) \<and>
         length evs = length (reconstructed rows segmentLow sieve)))"
proof (intro conjI allI impI)
  fix f'
  assume "generate f segmentLow sieve sieveSize = Inr f'"
  from generate_events_in_mode [OF this] obtain evs where
    e: "f' = with_events f evs"
    "\<forall>ev \<in> set evs. event_of_mode (emission_mode_of (flags (primeSieve f))) ev"
    by blast
  then have "\<forall>m ev. ev \<in> set evs \<and> event_of_mode m ev
      \<longrightarrow> m = emission_mode_of (flags (primeSieve f))"
    using event_of_mode_exclusive by blast
  with e show "\<exists>evs. f' = with_events f evs \<and>
         (\<forall>ev \<in> set evs. event_of_mode (emission_mode_of (flags (primeSieve f))) ev) \<and>
         (\<forall>m ev. ev \<in> set evs \<and> event_of_mode m ev
            \<longrightarrow> m = emission_mode_of (flags (primeSieve f)))"
    by blast
next
  assume "init_primeBitValues (flags (primeSieve f)) bitValues_std = Inr (primeBitValues f) \<and>
    flags (primeSieve f) AND GENERATE_FLAGS \<noteq> 0 \<and> length sieve = unat sieveSize"
  then show "\<exists>rows evs. primeBitValues f = Some rows \<and>
         generate f segmentLow sieve sieveSize = Inr (with_events f evs) \<and>
         length evs = length (reconstructed rows segmentLow sieve)"
    using generate_returns_in_mode [of f sieve sieveSize segmentLow] by blast
qed

lemma world_with_events: "world (primeSieve (with_events f evs)) = world (primeSieve f) @ evs"
  by (simp add: with_events_def)

lemma with_events_inject:
  assumes "with_events f a = with_events f b"
  shows "a = b"
proof -
  have "world (primeSieve (with_events f a)) = world (primeSieve (with_events f b))"
    using assms by (rule arg_cong)
  then show ?thesis
    by (simp only: world_with_events same_append_eq)
qed

theorem one_emission_mode_by_precedence_witness:
  "\<exists>f evs.
     new_PrimeNumberFinder (example_PrimeSieve (CALLBACK_PRIMES OR PRINT_PRIMES)) False bitValues_std
       = Inr f \<and>
     emission_mode_of (flags (primeSieve f)) = FunctionCallback \<and>
     generate f 0 [0x03] 1 = Inr (with_events f evs) \<and> length evs = 2 \<and>
     list_all (event_of_mode FunctionCallback) evs"
proof -
  let ?fl = "CALLBACK_PRIMES OR PRINT_PRIMES"
  obtain f where f: "new_PrimeNumberFinder (example_PrimeSieve ?fl) False bitValues_std = Inr f"
    using new_PrimeNumberFinder_total [OF std_facts(1)] by blast
  have fl: "flags (primeSieve f) = ?fl"
    using f by (rule example_flags)
  have g1: "?fl AND GENERATE_FLAGS \<noteq> 0"
    by (simp add: PRINT_PRIMES_def GENERATE_FLAGS_def PRINT_FLAGS_def CALLBACK_PRIMES_def
        CALLBACK_PRIMES_OOP_def)
  have g2: "generateType_of ?fl = 0"
    by (simp add: generateType_of_def PRINT_PRIMES_def CALLBACK_PRIMES_def PRINT_FLAGS_def
        COUNTS_SIZE_def upt_rec)
  have m: "emission_mode_of (flags (primeSieve f)) = FunctionCallback"
    by (simp add: fl emission_mode_of_def PRINT_PRIMES_def CALLBACK_PRIMES_def)
  from scenario_row_0x03 [OF f g1 g2] obtain rows0 where
    r0: "primeBitValues f = Some rows0" "reconstructed_values rows0 0 [0x03] = [7, 11]"
    by blast
  from r0(2) have l0: "length (reconstructed rows0 0 [0x03]) = 2"
    unfolding reconstructed_values_def by (metis length_map length_Cons list.size(3) numeral_2_eq_2)
  have h: "init_primeBitValues (flags (primeSieve f)) bitValues_std = Inr (primeBitValues f) \<and>
    flags (primeSieve f) AND GENERATE_FLAGS \<noteq> 0 \<and> length [0x03 :: u8] = unat (1::u32)"
    using new_PrimeNumberFinder_Inr(5) [OF f] g1 fl by simp
  note t = one_emission_mode_by_precedence [of f 0 "[0x03]" 1]
  from t h obtain rows evs where
    e: "primeBitValues f = Some rows" "generate f 0 [0x03] 1 = Inr (with_events f evs)"
    "length evs = length (reconstructed rows 0 [0x03])"
    by blast
  from t e(2) obtain evs' where
    e': "with_events f evs = with_events f evs'"
    "\<forall>ev \<in> set evs'. event_of_mode (emission_mode_of (flags (primeSieve f))) ev"
    by blast
  from e'(1) have "evs = evs'"
    by (rule with_events_inject)
  with e'(2) m have "list_all (event_of_mode FunctionCallback) evs"
    by (simp add: list_all_iff)
  moreover have "length evs = 2"
    using e(1,3) r0(1) l0 by simp
  ultimately show ?thesis
    using f m e(2) by blast
qed

lemma with_events_fields:
  "flags (primeSieve (with_events f evs)) = flags (primeSieve f)"
  "counts (primeSieve (with_events f evs)) = counts (primeSieve f)"
  "primeByteCounts (with_events f evs) = primeByteCounts f"
  "primeBitValues (with_events f evs) = primeBitValues f"
  by (simp_all add: with_events_def)



lemma not_DoStatus: "event_of_mode m ev \<Longrightarrow> ev \<noteq> DoStatus n"
  by (cases ev) auto









end
